theory Spec2Isabelle
  imports Complex_Main "HOL-Library.Signed_Division" "HOL-Library.Monad_Syntax"
    "HOL-Library.Multiset"
begin

section \<open>Data model of \<^verbatim>\<open>minifft.c\<close>\<close>

text \<open>
  The C types are embedded as follows.
  \<^item> \<^verbatim>\<open>int\<close> is \<^typ>\<open>int\<close>, the mathematical integers; \<^verbatim>\<open>/\<close> on \<^verbatim>\<open>int\<close> truncates
    towards zero and is written \<open>sdiv\<close>.  Signed overflow, which C leaves undefined, is
    not modelled: every theorem below is about arguments whose products
    \<^verbatim>\<open>numminifft * 4\<close> and \<^verbatim>\<open>(minifftlen + padlen) * numbetween\<close> are the mathematical
    ones.  Where a statement ranges over all values of an \<^verbatim>\<open>int\<close> argument, the range
    of a 32-bit \<^verbatim>\<open>int\<close> is written out as a hypothesis (\<open>INT_MIN\<close>, \<open>INT_MAX\<close>, \<open>int_ok\<close>
    and \<open>padfftlen_in_range\<close> below).
  \<^item> \<^verbatim>\<open>float\<close> is idealised as \<^typ>\<open>real\<close>: no rounding, no infinities, no NaN.
  \<^item> \<^verbatim>\<open>fcomplex\<close> (declared in \<^verbatim>\<open>presto.h\<close>: two floats \<^verbatim>\<open>r\<close> and \<^verbatim>\<open>i\<close>) is a record,
    with the fields written \<open>re\<close> and \<open>im\<close>.
  \<^item> An array is the list of its elements.  A read or write outside the allocated
    range is undefined in C; the model makes it the value \<open>None\<close>, so a result
    \<open>Some \<dots>\<close> says that every access of the run was inside its array.
\<close>

record fcomplex =
  re :: real
  im :: real

definition czero :: fcomplex where
  "czero = \<lparr>re = 0, im = 0\<rparr>"

definition rd :: "'a list \<Rightarrow> int \<Rightarrow> 'a option" where
  "rd xs n = (if 0 \<le> n \<and> n < int (length xs) then Some (xs ! nat n) else None)"

definition wr :: "'a list \<Rightarrow> int \<Rightarrow> 'a \<Rightarrow> 'a list option" where
  "wr xs n v = (if 0 \<le> n \<and> n < int (length xs) then Some (xs[nat n := v]) else None)"

text \<open>
  Modelled from the spec: the macro \<^verbatim>\<open>POWER(r, i)\<close> of \<^verbatim>\<open>presto.h\<close> is not part of
  the source file; the spec gives it as \<^verbatim>\<open>real\<^sup>2 + imag\<^sup>2\<close>.
\<close>

definition POWER :: "real \<Rightarrow> real \<Rightarrow> real" where
  "POWER x y = x * x + y * y"

section \<open>Padding policy: \<^verbatim>\<open>padfftlen\<close>\<close>

text \<open>
  \<^verbatim>\<open>r_resp_halfwidth(LOWACC)\<close> is an external routine; its value is the parameter
  \<open>lowaccbins\<close>.  The C function returns the transform length and stores the padding
  length through \<^verbatim>\<open>padlen\<close>; the model returns the pair (result, padlen).
\<close>

definition padfftlen :: "int \<Rightarrow> int \<Rightarrow> int \<Rightarrow> int \<times> int" where
  "padfftlen lowaccbins minifftlen numbetween =
     (let padlen0 = minifftlen sdiv 8;
          padlen = (if padlen0 > lowaccbins then lowaccbins else padlen0);
          newlen = (minifftlen + padlen) * numbetween
      in (if newlen \<le> 144 then newlen
          else if newlen \<le> 288 then 288
          else if newlen \<le> 540 then 540
          else if newlen \<le> 1080 then 1080
          else if newlen \<le> 2100 then 2100
          else if newlen \<le> 4200 then 4200
          else if newlen \<le> 8232 then 8232
          else if newlen \<le> 16464 then 16464
          else if newlen \<le> 32805 then 32805
          else if newlen \<le> 65610 then 65610
          else if newlen \<le> 131220 then 131220
          else if newlen \<le> 262440 then 262440
          else if newlen \<le> 525000 then 525000
          else if newlen \<le> 1050000 then 1050000
          else ((newlen + 1000) sdiv 1000) * 1000,
          padlen))"

text \<open>The sizes that \<^verbatim>\<open>padfftlen\<close> returns as constants, in the order of the source.\<close>

definition fftlen_table :: "int list" where
  "fftlen_table = [288, 540, 1080, 2100, 4200, 8232, 16464, 32805, 65610,
                   131220, 262440, 525000, 1050000]"

text \<open>The claim's reading of the result: the least table entry not below \<open>n\<close>.\<close>

definition least_table_entry :: "int list \<Rightarrow> int \<Rightarrow> int \<Rightarrow> bool" where
  "least_table_entry tab n x \<longleftrightarrow> x \<in> set tab \<and> n \<le> x \<and> (\<forall>t \<in> set tab. n \<le> t \<longrightarrow> x \<le> t)"

text \<open>
  The range of \<^verbatim>\<open>int\<close> (32 bits), and the arguments of \<^verbatim>\<open>padfftlen\<close> at which every
  \<^verbatim>\<open>int\<close> that the function forms is inside that range: the arguments, the sum
  \<^verbatim>\<open>minifftlen + *padlen\<close>, the product \<^verbatim>\<open>newlen\<close> and, when the last branch is taken,
  the sum \<^verbatim>\<open>newlen + 1000\<close> of line 162.  At these arguments the model computes what the
  C function computes.
\<close>

definition INT_MAX :: int where
  "INT_MAX = 2147483647"

definition INT_MIN :: int where
  "INT_MIN = - 2147483648"

definition int_ok :: "int \<Rightarrow> bool" where
  "int_ok x \<longleftrightarrow> INT_MIN \<le> x \<and> x \<le> INT_MAX"

definition padfftlen_in_range :: "int \<Rightarrow> int \<Rightarrow> int \<Rightarrow> bool" where
  "padfftlen_in_range lowaccbins minifftlen numbetween \<longleftrightarrow>
     (let padlen0 = minifftlen sdiv 8;
          padlen = (if padlen0 > lowaccbins then lowaccbins else padlen0);
          newlen = (minifftlen + padlen) * numbetween
      in int_ok lowaccbins \<and> int_ok minifftlen \<and> int_ok numbetween
       \<and> int_ok (minifftlen + padlen) \<and> int_ok newlen
       \<and> (1050000 < newlen \<longrightarrow> int_ok (newlen + 1000)))"

section \<open>External routines and static variables\<close>

text \<open>
  The routines \<^verbatim>\<open>r_resp_halfwidth\<close>, \<^verbatim>\<open>gen_r_response\<close>, \<^verbatim>\<open>place_complex_kernel\<close>,
  \<^verbatim>\<open>COMPLEXFFT\<close> and \<^verbatim>\<open>complex_corr_conv\<close> belong to other files of the library.  They
  are parameters of the model: a routine that fills or transforms a buffer is a
  function from the old contents to the new ones.  \<^verbatim>\<open>complex_corr_conv\<close> is always
  called with \<^verbatim>\<open>FFTD\<close> and \<^verbatim>\<open>INPLACE_CORR\<close>, which are left out.
\<close>

record externals =
  r_resp_halfwidth_LOWACC :: int
  gen_r_response :: "real \<Rightarrow> int \<Rightarrow> int \<Rightarrow> fcomplex list"
  place_complex_kernel :: "fcomplex list \<Rightarrow> int \<Rightarrow> fcomplex list \<Rightarrow> int \<Rightarrow> fcomplex list"
  COMPLEXFFT :: "fcomplex list \<Rightarrow> int \<Rightarrow> int \<Rightarrow> fcomplex list"
  complex_corr_conv :: "fcomplex list \<Rightarrow> fcomplex list \<Rightarrow> int \<Rightarrow> fcomplex list"

text \<open>
  The allocators \<^verbatim>\<open>gen_cvect\<close> and \<^verbatim>\<open>gen_fvect\<close> return fresh arrays of the given length.
  Their contents are unspecified in C; \<^verbatim>\<open>search_minifft\<close> writes every slot before it
  reads it, and the model starts them at zero.
\<close>

definition gen_cvect :: "int \<Rightarrow> fcomplex list" where
  "gen_cvect n = replicate (nat n) czero"

definition gen_fvect :: "int \<Rightarrow> real list" where
  "gen_fvect n = replicate (nat n) 0"

text \<open>
  Modelled from the spec: \<^verbatim>\<open>spread_no_pad\<close> is not part of the source file.  The spec
  (4.3, steps 1 and 2) has it zero the padded buffer and copy each input sample into
  every \<open>numbetween\<close>-th slot.  Reading \<open>numdata\<close> samples from a shorter input, or
  filling \<open>numresult\<close> slots of a shorter buffer, is a fault.
\<close>

definition spread_no_pad ::
  "fcomplex list \<Rightarrow> int \<Rightarrow> fcomplex list \<Rightarrow> int \<Rightarrow> int \<Rightarrow> fcomplex list option" where
  "spread_no_pad data numdata result numresult numbetween =
     (if int (length data) < numdata \<or> int (length result) < numresult then None
      else Some (map (\<lambda>jj. if jj mod numbetween = 0 \<and> jj div numbetween < numdata
                            then data ! nat (jj div numbetween) else czero)
                     [0..numresult - 1]
                 @ drop (nat numresult) result))"

text \<open>The three \<^verbatim>\<open>static\<close> variables of \<^verbatim>\<open>search_minifft\<close>, and their initial values.\<close>

record statics =
  firsttime :: int
  old_numminifft :: int
  kernel :: "fcomplex list"

definition initial_statics :: statics where
  "initial_statics = \<lparr>firsttime = 1, old_numminifft = 0, kernel = []\<rparr>"

section \<open>\<^verbatim>\<open>search_minifft\<close>, block by block\<close>

text \<open>Lines 46 to 56: prep the kernel if needed.\<close>

definition prep_kernel :: "externals \<Rightarrow> statics \<Rightarrow> int \<Rightarrow> int \<Rightarrow> int \<Rightarrow> statics" where
  "prep_kernel X st numminifft numspread kern_half_width =
     (if firsttime st \<noteq> 0 \<or> old_numminifft st \<noteq> numminifft then
        (let numkern = 4 * kern_half_width;
             kern = gen_r_response X 0 2 numkern;
             kernel0 = gen_cvect numspread;
             kernel1 = place_complex_kernel X kern numkern kernel0 numspread;
             kernel2 = COMPLEXFFT X kernel1 numspread (- 1)
         in st\<lparr>kernel := kernel2, firsttime := 0, old_numminifft := numminifft\<rparr>)
      else st)"

text \<open>Lines 66 to 69: the loop that normalises the spread samples; it returns the
  final value of \<^verbatim>\<open>ii\<close> with the buffer, since line 70 uses it.\<close>

function normalize_loop ::
  "real \<Rightarrow> int \<Rightarrow> int \<Rightarrow> fcomplex list \<Rightarrow> (int \<times> fcomplex list) option" where
  "normalize_loop sqrtnorm nmini2 ii spread =
     (if ii < nmini2 then
        do { c \<leftarrow> rd spread ii;
             spread' \<leftarrow> wr spread ii (c\<lparr>re := re c * sqrtnorm, im := im c * sqrtnorm\<rparr>);
             normalize_loop sqrtnorm nmini2 (ii + 2) spread' }
      else Some (ii, spread))"
  by pat_completeness auto
termination
  by (relation "measure (\<lambda>(sqrtnorm, nmini2, ii, spread). nat (nmini2 - ii))") auto

declare normalize_loop.simps [simp del]

text \<open>Lines 60 to 73: spread, normalise and interpolate the minifft.  The result is
  the value of \<^verbatim>\<open>nyquist\<close> and the interpolated buffer.\<close>

definition spread_normalize_interpolate ::
  "externals \<Rightarrow> fcomplex list \<Rightarrow> fcomplex list \<Rightarrow> int \<Rightarrow> real \<Rightarrow> int
     \<Rightarrow> (real \<times> fcomplex list) option" where
  "spread_normalize_interpolate X kern minifft numminifft nrm numspread =
     do { spread0 \<leftarrow> spread_no_pad minifft numminifft (gen_cvect numspread) numspread 2;
          let sqrtnorm = sqrt nrm;
          c0 \<leftarrow> rd spread0 0;
          let nyquist = im c0 * sqrtnorm;
          spread1 \<leftarrow> wr spread0 0 \<lparr>re = 1, im = 0\<rparr>;
          (ii, spread2) \<leftarrow> normalize_loop sqrtnorm (numminifft * 2) 2 spread1;
          spread3 \<leftarrow> wr spread2 ii \<lparr>re = nyquist, im = 0\<rparr>;
          Some (nyquist, complex_corr_conv X spread3 kern numspread) }"

text \<open>Lines 82 to 86: the power array wrapped around the Nyquist frequency.\<close>

function wrap_loop ::
  "fcomplex list \<Rightarrow> int \<Rightarrow> int \<Rightarrow> int \<Rightarrow> real list \<Rightarrow> real list option" where
  "wrap_loop spread nmini2 ii jj fullpows =
     (if ii < nmini2 then
        do { c \<leftarrow> rd spread ii;
             fullpows' \<leftarrow> wr fullpows jj (POWER (re c) (im c));
             fullpows'' \<leftarrow> wr fullpows' ii (POWER (re c) (im c));
             wrap_loop spread nmini2 (ii + 1) (jj - 1) fullpows'' }
      else Some fullpows)"
  by pat_completeness auto
termination
  by (relation "measure (\<lambda>(spread, nmini2, ii, jj, fullpows). nat (nmini2 - ii))") auto

declare wrap_loop.simps [simp del]

definition wrap_powers :: "fcomplex list \<Rightarrow> real \<Rightarrow> int \<Rightarrow> int \<Rightarrow> real list option" where
  "wrap_powers spread nyquist nmini2 nmini4 =
     do { fullpows0 \<leftarrow> wr (gen_fvect nmini4) 0 1;
          fullpows1 \<leftarrow> wr fullpows0 nmini2 (nyquist * nyquist);
          wrap_loop spread nmini2 1 (nmini4 - 1) fullpows1 }"

text \<open>Lines 90 to 99: the summation of the harmonics.\<close>

function zero_loop :: "int \<Rightarrow> int \<Rightarrow> real list \<Rightarrow> real list option" where
  "zero_loop nmini4 ii sumpows =
     (if ii < nmini4 then
        do { sumpows' \<leftarrow> wr sumpows ii 0;
             zero_loop nmini4 (ii + 1) sumpows' }
      else Some sumpows)"
  by pat_completeness auto
termination
  by (relation "measure (\<lambda>(nmini4, ii, sumpows). nat (nmini4 - ii))") auto

declare zero_loop.simps [simp del]

function harm_kk_loop ::
  "real list \<Rightarrow> int \<Rightarrow> int \<Rightarrow> int \<Rightarrow> int \<Rightarrow> real list \<Rightarrow> real list option" where
  "harm_kk_loop fullpows ii jj offset kk sumpows =
     (if kk < ii then
        do { s \<leftarrow> rd sumpows (jj * ii + kk - offset);
             p \<leftarrow> rd fullpows jj;
             sumpows' \<leftarrow> wr sumpows (jj * ii + kk - offset) (s + p);
             harm_kk_loop fullpows ii jj offset (kk + 1) sumpows' }
      else Some sumpows)"
  by pat_completeness auto
termination
  by (relation "measure (\<lambda>(fullpows, ii, jj, offset, kk, sumpows). nat (ii - kk))") auto

declare harm_kk_loop.simps [simp del]

function harm_jj_loop ::
  "real list \<Rightarrow> int \<Rightarrow> int \<Rightarrow> int \<Rightarrow> int \<Rightarrow> real list \<Rightarrow> real list option" where
  "harm_jj_loop fullpows nmini4 ii offset jj sumpows =
     (if jj < nmini4 sdiv ii then
        do { sumpows' \<leftarrow> harm_kk_loop fullpows ii jj offset 0 sumpows;
             harm_jj_loop fullpows nmini4 ii offset (jj + 1) sumpows' }
      else Some sumpows)"
  by pat_completeness auto
termination
  by (relation "measure (\<lambda>(fullpows, nmini4, ii, offset, jj, sumpows). nat (nmini4 sdiv ii - jj))") auto

declare harm_jj_loop.simps [simp del]

function harm_ii_loop ::
  "real list \<Rightarrow> int \<Rightarrow> int \<Rightarrow> int \<Rightarrow> real list \<Rightarrow> real list option" where
  "harm_ii_loop fullpows nmini4 harmsum ii sumpows =
     (if ii \<le> harmsum then
        do { let offset = ii sdiv 2;
             sumpows' \<leftarrow> harm_jj_loop fullpows nmini4 ii offset 1 sumpows;
             harm_ii_loop fullpows nmini4 harmsum (ii + 1) sumpows' }
      else Some sumpows)"
  by pat_completeness auto
termination
  by (relation "measure (\<lambda>(fullpows, nmini4, harmsum, ii, sumpows). nat (harmsum + 1 - ii))") auto

declare harm_ii_loop.simps [simp del]

definition sum_harmonics :: "real list \<Rightarrow> int \<Rightarrow> int \<Rightarrow> real list option" where
  "sum_harmonics fullpows nmini4 harmsum =
     do { f0 \<leftarrow> rd fullpows 0;
          sumpows0 \<leftarrow> wr (gen_fvect nmini4) 0 f0;
          sumpows1 \<leftarrow> zero_loop nmini4 1 sumpows0;
          harm_ii_loop fullpows nmini4 harmsum 1 sumpows1 }"

text \<open>Lines 103 to 108: the powers without harmonic summing.\<close>

function power_loop ::
  "fcomplex list \<Rightarrow> int \<Rightarrow> int \<Rightarrow> real list \<Rightarrow> real list option" where
  "power_loop spread nmini2 ii sumpows =
     (if ii < nmini2 then
        do { c \<leftarrow> rd spread ii;
             sumpows' \<leftarrow> wr sumpows ii (POWER (re c) (im c));
             power_loop spread nmini2 (ii + 1) sumpows' }
      else Some sumpows)"
  by pat_completeness auto
termination
  by (relation "measure (\<lambda>(spread, nmini2, ii, sumpows). nat (nmini2 - ii))") auto

declare power_loop.simps [simp del]

definition plain_powers :: "fcomplex list \<Rightarrow> real \<Rightarrow> int \<Rightarrow> real list option" where
  "plain_powers spread nyquist nmini2 =
     do { sumpows0 \<leftarrow> wr (gen_fvect (nmini2 + 1)) 0 1;
          sumpows1 \<leftarrow> wr sumpows0 nmini2 (nyquist * nyquist);
          power_loop spread nmini2 1 sumpows1 }"

text \<open>Lines 77 to 109: the array that is searched, with \<^verbatim>\<open>numtosearch\<close>.\<close>

definition summed_powers ::
  "fcomplex list \<Rightarrow> real \<Rightarrow> int \<Rightarrow> int \<Rightarrow> (real list \<times> int) option" where
  "summed_powers spread nyquist numminifft harmsum =
     (let nmini2 = numminifft * 2; nmini4 = numminifft * 4 in
      if harmsum > 1 then
        do { fullpows \<leftarrow> wrap_powers spread nyquist nmini2 nmini4;
             sumpows \<leftarrow> sum_harmonics fullpows nmini4 harmsum;
             Some (sumpows, nmini4) }
      else
        do { sumpows \<leftarrow> plain_powers spread nyquist nmini2;
             Some (sumpows, nmini2 + 1) })"

section \<open>The candidate list\<close>

text \<open>
  \<^verbatim>\<open>percolate_pows_and_freqs\<close> (lines 166 to 184).  The macro \<^verbatim>\<open>SWAP(a, b)\<close> of
  \<^verbatim>\<open>presto.h\<close> exchanges its two arguments through \<^verbatim>\<open>tempzz\<close>.  The function returns
  its result together with the two arrays it has changed.
\<close>

function percolate_loop ::
  "int \<Rightarrow> real list \<Rightarrow> real list \<Rightarrow> (real list \<times> real list) option" where
  "percolate_loop ii highpows highfreqs =
     (if ii \<ge> 0 then
        do { a \<leftarrow> rd highpows ii;
             b \<leftarrow> rd highpows (ii + 1);
             if a < b then
               do { highpows' \<leftarrow> wr highpows ii b;
                    highpows'' \<leftarrow> wr highpows' (ii + 1) a;
                    fa \<leftarrow> rd highfreqs ii;
                    fb \<leftarrow> rd highfreqs (ii + 1);
                    highfreqs' \<leftarrow> wr highfreqs ii fb;
                    highfreqs'' \<leftarrow> wr highfreqs' (ii + 1) fa;
                    percolate_loop (ii - 1) highpows'' highfreqs'' }
             else Some (highpows, highfreqs) }
      else Some (highpows, highfreqs))"
  by pat_completeness auto
termination
  by (relation "measure (\<lambda>(ii, highpows, highfreqs). nat (ii + 1))") auto

declare percolate_loop.simps [simp del]

definition percolate_pows_and_freqs ::
  "real list \<Rightarrow> real list \<Rightarrow> int \<Rightarrow> (real \<times> real list \<times> real list) option" where
  "percolate_pows_and_freqs highpows highfreqs numcands =
     do { (highpows', highfreqs') \<leftarrow> percolate_loop (numcands - 2) highpows highfreqs;
          low \<leftarrow> rd highpows' (numcands - 1);
          Some (low, highpows', highfreqs') }"

text \<open>Lines 113 to 116: the returned vectors are cleared.\<close>

function clear_loop ::
  "int \<Rightarrow> int \<Rightarrow> real list \<Rightarrow> real list \<Rightarrow> (real list \<times> real list) option" where
  "clear_loop numcands ii highpows highfreqs =
     (if ii < numcands then
        do { highpows' \<leftarrow> wr highpows ii 0;
             highfreqs' \<leftarrow> wr highfreqs ii 0;
             clear_loop numcands (ii + 1) highpows' highfreqs' }
      else Some (highpows, highfreqs))"
  by pat_completeness auto
termination
  by (relation "measure (\<lambda>(numcands, ii, highpows, highfreqs). nat (numcands - ii))") auto

declare clear_loop.simps [simp del]

text \<open>Lines 117 to 123: the scan of the summed powers.\<close>

function scan_loop ::
  "real list \<Rightarrow> int \<Rightarrow> int \<Rightarrow> int \<Rightarrow> real \<Rightarrow> real list \<Rightarrow> real list
     \<Rightarrow> (real list \<times> real list) option" where
  "scan_loop sumpows numtosearch numcands ii minpow highpows highfreqs =
     (if ii < numtosearch then
        do { s \<leftarrow> rd sumpows ii;
             if s > minpow then
               do { highpows' \<leftarrow> wr highpows (numcands - 1) s;
                    highfreqs' \<leftarrow> wr highfreqs (numcands - 1) (0.5 * real_of_int ii);
                    (minpow', highpows'', highfreqs'') \<leftarrow>
                       percolate_pows_and_freqs highpows' highfreqs' numcands;
                    scan_loop sumpows numtosearch numcands (ii + 1) minpow' highpows'' highfreqs'' }
             else scan_loop sumpows numtosearch numcands (ii + 1) minpow highpows highfreqs }
      else Some (highpows, highfreqs))"
  by pat_completeness auto
termination
  by (relation "measure (\<lambda>(sumpows, numtosearch, numcands, ii, minpow, highpows, highfreqs).
                           nat (numtosearch - ii))") auto

declare scan_loop.simps [simp del]

text \<open>Lines 113 to 123: search the summed powers (\<^verbatim>\<open>minpow\<close> starts at 0).\<close>

definition search_summed_powers ::
  "real list \<Rightarrow> int \<Rightarrow> int \<Rightarrow> real list \<Rightarrow> real list \<Rightarrow> (real list \<times> real list) option" where
  "search_summed_powers sumpows numtosearch numcands highpows highfreqs =
     do { (highpows', highfreqs') \<leftarrow> clear_loop numcands 0 highpows highfreqs;
          scan_loop sumpows numtosearch numcands 1 0 highpows' highfreqs' }"

section \<open>\<^verbatim>\<open>search_minifft\<close>\<close>

text \<open>
  The function takes the static variables and the two caller-allocated vectors and
  returns the static variables and the vectors after the call.  The argument \<^verbatim>\<open>norm\<close>
  is written \<open>nrm\<close>, since \<open>norm\<close> is a constant of the logic.
\<close>

definition search_minifft ::
  "externals \<Rightarrow> statics \<Rightarrow> fcomplex list \<Rightarrow> int \<Rightarrow> real \<Rightarrow> int \<Rightarrow> int \<Rightarrow> real list \<Rightarrow> real list
     \<Rightarrow> (statics \<times> real list \<times> real list) option" where
  "search_minifft X st minifft numminifft nrm harmsum numcands highpows highfreqs =
     (let (numspread, kern_half_width) = padfftlen (r_resp_halfwidth_LOWACC X) numminifft 2;
          st' = prep_kernel X st numminifft numspread kern_half_width
      in do { (nyquist, spread) \<leftarrow>
                 spread_normalize_interpolate X (kernel st') minifft numminifft nrm numspread;
              (sumpows, numtosearch) \<leftarrow> summed_powers spread nyquist numminifft harmsum;
              (highpows', highfreqs') \<leftarrow>
                 search_summed_powers sumpows numtosearch numcands highpows highfreqs;
              Some (st', highpows', highfreqs') })"

section \<open>Notions used in the statements\<close>

text \<open>
  The (power, frequency) pairs of the scanned bins (index 1 up to \<open>numtosearch - 1\<close>)
  whose power is strictly greater than zero, in scan order; their number is the number
  of scanned bins with positive power.
\<close>

definition scanned_pairs :: "real list \<Rightarrow> int \<Rightarrow> (real \<times> real) list" where
  "scanned_pairs sumpows numtosearch =
     map (\<lambda>i. (sumpows ! nat i, 0.5 * real_of_int i))
         (filter (\<lambda>i. 0 < sumpows ! nat i) [1..numtosearch - 1])"

text \<open>
  Every slot of the two vectors holds (0, 0) or the power of a scanned bin together with
  half the index of that bin.
\<close>

definition slots_from_scan :: "real list \<Rightarrow> int \<Rightarrow> real list \<Rightarrow> real list \<Rightarrow> bool" where
  "slots_from_scan sumpows numtosearch hp hf \<longleftrightarrow>
     (\<forall>j<length hp. (hp ! j, hf ! j) = (0, 0)
        \<or> (\<exists>i. 1 \<le> i \<and> i < numtosearch \<and> sumpows ! nat i = hp ! j
               \<and> 0.5 * real_of_int i = hf ! j))"

definition positive_bins :: "real list \<Rightarrow> int \<Rightarrow> nat" where
  "positive_bins sumpows numtosearch =
     length (filter (\<lambda>i. 0 < sumpows ! nat i) [1..numtosearch - 1])"

text \<open>
  The harmonic summing in the words of the spec (4.4): starting from
  \<open>sumpows[0] = fullpows[0]\<close> and zero elsewhere, for each harmonic order \<open>h\<close> from 1 to
  \<open>H\<close> with offset \<open>h div 2\<close>, for each harmonic group \<open>jh\<close> from 1 up to (excluding)
  \<open>len div h\<close>, for each sub-offset \<open>k\<close> in \<open>[0, h)\<close>, position \<open>jh * h + k - h div 2\<close> is
  incremented by the power at a source index.  The source index is the parameter
  \<open>src\<close>: the spec names \<open>jh * h\<close>.
\<close>

definition harm_step ::
  "(int \<Rightarrow> int \<Rightarrow> int) \<Rightarrow> real list \<Rightarrow> int \<Rightarrow> int \<Rightarrow> int \<Rightarrow> real list \<Rightarrow> real list" where
  "harm_step src fullpows h jh k sumpows =
     (let pos = nat (jh * h + k - h div 2)
      in sumpows[pos := sumpows ! pos + fullpows ! nat (src h jh)])"

definition harm_sum_spec :: "(int \<Rightarrow> int \<Rightarrow> int) \<Rightarrow> real list \<Rightarrow> int \<Rightarrow> int \<Rightarrow> real list" where
  "harm_sum_spec src fullpows H len =
     fold (\<lambda>h. fold (\<lambda>jh. fold (harm_step src fullpows h jh) [0..h - 1]) [1..len div h - 1])
          [1..H] (fullpows ! 0 # replicate (nat len - 1) 0)"

text \<open>
  What the model needs from \<^verbatim>\<open>complex_corr_conv\<close>: called in place on \<open>n\<close> samples, it
  returns \<open>n\<close> samples.
\<close>

definition corr_keeps_length :: "externals \<Rightarrow> bool" where
  "corr_keeps_length X \<longleftrightarrow>
     (\<forall>d k n. length d = nat n \<longrightarrow> length (complex_corr_conv X d k n) = nat n)"

text \<open>
  Lines 42 to 56 as a function of the static variables: their values after a call
  with input length \<open>numminifft\<close>.
\<close>

definition statics_after :: "externals \<Rightarrow> statics \<Rightarrow> int \<Rightarrow> statics" where
  "statics_after X st numminifft =
     (let (numspread, kern_half_width) = padfftlen (r_resp_halfwidth_LOWACC X) numminifft 2
      in prep_kernel X st numminifft numspread kern_half_width)"

text \<open>
  Lines 40 to 109 as one function: the array that a call searches, with
  \<^verbatim>\<open>numtosearch\<close>.
\<close>

definition searched_powers ::
  "externals \<Rightarrow> statics \<Rightarrow> fcomplex list \<Rightarrow> int \<Rightarrow> real \<Rightarrow> int \<Rightarrow> (real list \<times> int) option" where
  "searched_powers X st minifft numminifft nrm harmsum =
     (let (numspread, kern_half_width) = padfftlen (r_resp_halfwidth_LOWACC X) numminifft 2;
          st' = prep_kernel X st numminifft numspread kern_half_width
      in do { (nyquist, spread) \<leftarrow>
                 spread_normalize_interpolate X (kernel st') minifft numminifft nrm numspread;
              summed_powers spread nyquist numminifft harmsum })"

text \<open>
  A concrete instance of the external routines and a concrete minifft of eight samples,
  for the runs evaluated below: the half-width is 16, the kernel is all zero and the
  correlation returns its data unchanged.
\<close>

definition X0 :: externals where
  "X0 = \<lparr>r_resp_halfwidth_LOWACC = 16,
          gen_r_response = (\<lambda>roffset numbetween numkern. replicate (nat numkern) czero),
          place_complex_kernel = (\<lambda>kern numkern result numresult. result),
          COMPLEXFFT = (\<lambda>data n isign. data),
          complex_corr_conv = (\<lambda>data kern numdata. data)\<rparr>"

definition mf0 :: "fcomplex list" where
  "mf0 = [\<lparr>re = 0, im = 2\<rparr>, czero, \<lparr>re = 3, im = 4\<rparr>, czero, czero, czero, czero, czero]"

text \<open>The buffer that the concrete minifft yields at norm 1, after the correlation.\<close>

definition spread0 :: "fcomplex list" where
  "spread0 = [\<lparr>re = 1, im = 0\<rparr>, czero, czero, czero, \<lparr>re = 3, im = 4\<rparr>, czero, czero, czero,
              czero, czero, czero, czero, czero, czero, czero, czero,
              \<lparr>re = 2, im = 0\<rparr>, czero]"

text \<open>The selection chain of \<^verbatim>\<open>padfftlen\<close> on its own, for the proofs.\<close>

definition pick_len :: "int \<Rightarrow> int" where
  "pick_len n =
     (if n \<le> 144 then n
      else if n \<le> 288 then 288
      else if n \<le> 540 then 540
      else if n \<le> 1080 then 1080
      else if n \<le> 2100 then 2100
      else if n \<le> 4200 then 4200
      else if n \<le> 8232 then 8232
      else if n \<le> 16464 then 16464
      else if n \<le> 32805 then 32805
      else if n \<le> 65610 then 65610
      else if n \<le> 131220 then 131220
      else if n \<le> 262440 then 262440
      else if n \<le> 525000 then 525000
      else if n \<le> 1050000 then 1050000
      else ((n + 1000) sdiv 1000) * 1000)"

section \<open>Padding policy: results\<close>

lemma sdiv_nonneg_eq_div: "0 \<le> a \<Longrightarrow> 0 < b \<Longrightarrow> (a::int) sdiv b = a div b"
  by (simp add: signed_divide_int_def sgn_if)

lemma padfftlen_unfold:
  assumes "0 \<le> minifftlen"
  shows "padfftlen lowaccbins minifftlen numbetween
    = (pick_len ((minifftlen + min (minifftlen div 8) lowaccbins) * numbetween),
       min (minifftlen div 8) lowaccbins)"
proof -
  have p: "(if minifftlen sdiv 8 > lowaccbins then lowaccbins else minifftlen sdiv 8)
             = min (minifftlen div 8) lowaccbins"
    using assms by (simp add: sdiv_nonneg_eq_div min_def)
  show ?thesis
    unfolding padfftlen_def Let_def p pick_len_def ..
qed

lemma pick_len_small: "n \<le> 144 \<Longrightarrow> pick_len n = n"
  by (simp add: pick_len_def)

lemma pick_len_table:
  "144 < n \<Longrightarrow> n \<le> 1050000 \<Longrightarrow> least_table_entry fftlen_table n (pick_len n)"
  unfolding least_table_entry_def fftlen_table_def pick_len_def by auto

lemma pick_len_large:
  assumes "1050000 < n"
  shows "pick_len n = ((n + 1000) div 1000) * 1000"
proof -
  have "(n + 1000) sdiv 1000 = (n + 1000) div 1000"
    using assms by (intro sdiv_nonneg_eq_div) simp_all
  with assms show ?thesis by (simp add: pick_len_def)
qed

lemma padfftlen_in_range_unfold:
  assumes "0 \<le> minifftlen"
  shows "padfftlen_in_range lowaccbins minifftlen numbetween \<longleftrightarrow>
     int_ok lowaccbins \<and> int_ok minifftlen \<and> int_ok numbetween
   \<and> int_ok (minifftlen + min (minifftlen div 8) lowaccbins)
   \<and> int_ok ((minifftlen + min (minifftlen div 8) lowaccbins) * numbetween)
   \<and> (1050000 < (minifftlen + min (minifftlen div 8) lowaccbins) * numbetween
        \<longrightarrow> int_ok ((minifftlen + min (minifftlen div 8) lowaccbins) * numbetween + 1000))"
proof -
  have p: "(if minifftlen sdiv 8 > lowaccbins then lowaccbins else minifftlen sdiv 8)
             = min (minifftlen div 8) lowaccbins"
    using assms by (simp add: sdiv_nonneg_eq_div min_def)
  show ?thesis
    unfolding padfftlen_in_range_def Let_def p ..
qed

lemma padfftlen_in_range_evals:
  "padfftlen_in_range 16 1024 2" "padfftlen_in_range 16 32 2" "padfftlen_in_range 16 1048576 2"
  by (simp_all add: padfftlen_in_range_def Let_def signed_divide_int_def int_ok_def
      INT_MIN_def INT_MAX_def)

text \<open>
  C2 (as amended).  Take an input length \<open>minifftlen \<ge> 0\<close>, a half-width and an
  oversampling factor at which every \<^verbatim>\<open>int\<close> that \<^verbatim>\<open>padfftlen\<close> forms fits 32 bits
  (\<open>padfftlen_in_range\<close>: the arguments, \<open>minifftlen + padlen\<close>, \<open>newlen\<close> and, above
  1050000, \<open>newlen + 1000\<close>).  The padding length is the minimum of \<open>minifftlen div 8\<close>
  and the low-accuracy half-width.  With \<open>newlen = (minifftlen + padlen) * numbetween\<close>:
  up to 144 the function returns \<open>newlen\<close> itself; above 144 and up to 1050000 it
  returns the least table entry not below \<open>newlen\<close>; above 1050000 it returns
  \<open>((newlen + 1000) div 1000) * 1000\<close>, the least multiple of 1000 strictly above
  \<open>newlen\<close>.  The result fits an \<^verbatim>\<open>int\<close>.
\<close>

theorem padfftlen_amended:
  assumes "0 \<le> minifftlen" "padfftlen_in_range lowaccbins minifftlen numbetween"
  shows "snd (padfftlen lowaccbins minifftlen numbetween) = min (minifftlen div 8) lowaccbins
    \<and> (let newlen = (minifftlen + min (minifftlen div 8) lowaccbins) * numbetween;
           res = fst (padfftlen lowaccbins minifftlen numbetween)
       in (newlen \<le> 144 \<longrightarrow> res = newlen)
        \<and> (144 < newlen \<and> newlen \<le> 1050000 \<longrightarrow> least_table_entry fftlen_table newlen res)
        \<and> (1050000 < newlen \<longrightarrow> res = ((newlen + 1000) div 1000) * 1000
              \<and> 1000 dvd res \<and> newlen < res \<and> res \<le> newlen + 1000)
        \<and> int_ok res)"
proof -
  define n where "n = (minifftlen + min (minifftlen div 8) lowaccbins) * numbetween"
  have u: "padfftlen lowaccbins minifftlen numbetween = (pick_len n, min (minifftlen div 8) lowaccbins)"
    unfolding n_def by (rule padfftlen_unfold [OF assms(1)])
  have r: "int_ok n" "1050000 < n \<longrightarrow> int_ok (n + 1000)"
    using assms(2) unfolding padfftlen_in_range_unfold [OF assms(1)] n_def by simp_all
  have d1: "(n + 1000) div 1000 = n div 1000 + 1" by simp
  have d2: "(n div 1000) * 1000 + n mod 1000 = n" by simp
  have d3: "0 \<le> n mod 1000" "n mod 1000 < 1000" by simp_all
  have d5: "(n div 1000 + 1) * 1000 = (n div 1000) * 1000 + 1000" by (simp add: algebra_simps)
  have d4: "n < (n div 1000 + 1) * 1000" "(n div 1000 + 1) * 1000 \<le> n + 1000"
    unfolding d5 using d2 d3 by linarith+
  have d: "1000 dvd ((n + 1000) div 1000) * 1000
         \<and> n < ((n + 1000) div 1000) * 1000 \<and> ((n + 1000) div 1000) * 1000 \<le> n + 1000"
    unfolding d1 using d4 by simp
  have c: "1050000 < n \<longrightarrow> pick_len n = ((n + 1000) div 1000) * 1000
              \<and> 1000 dvd pick_len n \<and> n < pick_len n \<and> pick_len n \<le> n + 1000"
    using d by (simp add: pick_len_large)
  have ok: "int_ok (pick_len n)"
  proof (cases "1050000 < n")
    case True
    with c r show ?thesis by (simp add: int_ok_def INT_MIN_def)
  next
    case False
    then show ?thesis
      using r(1) by (simp add: pick_len_def int_ok_def INT_MIN_def INT_MAX_def)
  qed
  show ?thesis
    unfolding Let_def n_def [symmetric] u fst_conv snd_conv
    using c ok pick_len_small [of n] pick_len_table [of n] by blast
qed

theorem padfftlen_amended_witness:
  "(0::int) \<le> 1024 \<and> padfftlen_in_range 16 1024 2
    \<and> padfftlen 16 1024 2 = (2100, 16) \<and> least_table_entry fftlen_table 2080 2100
    \<and> (0::int) \<le> 1048576 \<and> padfftlen_in_range 16 1048576 2
    \<and> padfftlen 16 1048576 2 = (2098000, 16) \<and> 1000 dvd (2098000::int) \<and> int_ok 2098000
    \<and> padfftlen 16 32 2 = (72, 4)"
proof -
  have z: "(0::int) \<le> 1024" "(0::int) \<le> 1048576" by simp_all
  have e1: "padfftlen 16 1024 2 = (2100, 16)"
    by (simp add: padfftlen_def Let_def signed_divide_int_def)
  have e2: "padfftlen 16 32 2 = (72, 4)"
    by (simp add: padfftlen_def Let_def signed_divide_int_def)
  have e3: "padfftlen 16 1048576 2 = (2098000, 16)"
    by (simp add: padfftlen_def Let_def signed_divide_int_def)
  have t1: "least_table_entry fftlen_table 2080 2100"
    using padfftlen_amended [OF z(1) padfftlen_in_range_evals(1)] by (simp add: Let_def e1)
  have t3: "1000 dvd (2098000::int) \<and> int_ok 2098000"
    using padfftlen_amended [OF z(2) padfftlen_in_range_evals(3)] by (simp add: Let_def e3)
  from z e1 e2 e3 t1 t3 padfftlen_in_range_evals(1,3) show ?thesis by (intro conjI) simp_all
qed

text \<open>
  C2 as stated fails: for the power-of-two length 32 with oversampling 2 (half-width
  16), where every value fits an \<^verbatim>\<open>int\<close>, the padding is 4 and the result is
  \<open>(32 + 4) * 2 = 72\<close>, which is no entry of the table (nor the threshold 144).
\<close>

theorem padfftlen_counterexample:
  "padfftlen_in_range 16 32 2
    \<and> fst (padfftlen 16 32 2) = 72 \<and> 72 \<notin> set (144 # fftlen_table)
    \<and> \<not> least_table_entry (144 # fftlen_table) ((32 + 4) * 2) (fst (padfftlen 16 32 2))"
  using padfftlen_in_range_evals(2)
  by (simp add: padfftlen_def Let_def signed_divide_int_def fftlen_table_def least_table_entry_def)


section \<open>Array accesses\<close>


lemma rd_eq_Some: "rd xs n = Some v \<longleftrightarrow> 0 \<le> n \<and> n < int (length xs) \<and> v = xs ! nat n"
  by (auto simp: rd_def)

lemma wr_eq_Some: "wr xs n v = Some ys \<longleftrightarrow> 0 \<le> n \<and> n < int (length xs) \<and> ys = xs[nat n := v]"
  by (auto simp: wr_def)

lemma rd_in: "0 \<le> n \<Longrightarrow> n < int (length xs) \<Longrightarrow> rd xs n = Some (xs ! nat n)"
  by (simp add: rd_def)

lemma wr_in: "0 \<le> n \<Longrightarrow> n < int (length xs) \<Longrightarrow> wr xs n v = Some (xs[nat n := v])"
  by (simp add: wr_def)

section \<open>The candidate list: clearing, percolation and scan\<close>

lemma clear_loop_ok:
  assumes "0 \<le> ii" "numcands \<le> int (length hp)" "numcands \<le> int (length hf)"
  shows "\<exists>hp' hf'. clear_loop numcands ii hp hf = Some (hp', hf')
           \<and> length hp' = length hp \<and> length hf' = length hf
           \<and> (\<forall>j < length hp. hp' ! j = (if ii \<le> int j \<and> int j < numcands then 0 else hp ! j))
           \<and> (\<forall>j < length hf. hf' ! j = (if ii \<le> int j \<and> int j < numcands then 0 else hf ! j))"
  using assms
proof (induction numcands ii hp hf rule: clear_loop.induct)
  case (1 numcands ii hp hf)
  show ?case
  proof (cases "ii < numcands")
    case False
    then show ?thesis by (subst clear_loop.simps) simp
  next
    case True
    have w1: "wr hp ii 0 = Some (hp[nat ii := 0])" and w2: "wr hf ii 0 = Some (hf[nat ii := 0])"
      using True "1.prems" by (simp_all add: wr_in)
    from "1.IH" [OF True w1 w2] "1.prems"
    obtain hp' hf' where r: "clear_loop numcands (ii + 1) (hp[nat ii := 0]) (hf[nat ii := 0]) = Some (hp', hf')"
      and l: "length hp' = length hp" "length hf' = length hf"
      and a: "\<forall>j < length hp. hp' ! j = (if ii + 1 \<le> int j \<and> int j < numcands then 0 else hp[nat ii := 0] ! j)"
      and b: "\<forall>j < length hf. hf' ! j = (if ii + 1 \<le> int j \<and> int j < numcands then 0 else hf[nat ii := 0] ! j)"
      by auto
    have "clear_loop numcands ii hp hf = Some (hp', hf')"
      by (subst clear_loop.simps) (simp add: True w1 w2 r)
    moreover have "\<forall>j < length hp. hp' ! j = (if ii \<le> int j \<and> int j < numcands then 0 else hp ! j)"
      using a True "1.prems" by (auto simp: nth_list_update)
    moreover have "\<forall>j < length hf. hf' ! j = (if ii \<le> int j \<and> int j < numcands then 0 else hf ! j)"
      using b True "1.prems" by (auto simp: nth_list_update)
    ultimately show ?thesis using l by simp
  qed
qed

lemma clear_loop_replicate:
  assumes "length hp = n" "length hf = n" "numcands = int n"
  shows "clear_loop numcands 0 hp hf = Some (replicate n 0, replicate n 0)"
proof -
  from clear_loop_ok [of 0 numcands hp hf] assms
  obtain hp' hf' where r: "clear_loop numcands 0 hp hf = Some (hp', hf')"
    and l: "length hp' = n" "length hf' = n"
    and a: "\<forall>j < n. hp' ! j = 0" and b: "\<forall>j < n. hf' ! j = 0"
    by auto
  have "hp' = replicate n 0" "hf' = replicate n 0"
    using l a b by (simp_all add: list_eq_iff_nth_eq)
  with r show ?thesis by simp
qed

lemma percolate_loop_inv:
  assumes "length hp = n" "length hf = n" "k < n"
    and "\<forall>a b. a < b \<and> b < n \<and> a \<noteq> k \<and> b \<noteq> k \<longrightarrow> hp ! b \<le> hp ! a"
    and "\<forall>b. k < b \<and> b < n \<longrightarrow> hp ! b \<le> hp ! k"
  shows "\<exists>hp' hf'. percolate_loop (int k - 1) hp hf = Some (hp', hf')
           \<and> length hp' = n \<and> length hf' = n
           \<and> sorted_wrt (\<ge>) hp' \<and> mset (zip hp' hf') = mset (zip hp hf)"
  using assms
proof (induction k arbitrary: hp hf)
  case 0
  have "sorted_wrt (\<ge>) hp"
    unfolding sorted_wrt_iff_nth_less
  proof (intro allI impI)
    fix a b assume "a < b" "b < length hp"
    then show "hp ! b \<le> hp ! a"
      using "0.prems" by (cases "a = 0") auto
  qed
  moreover have "percolate_loop (int 0 - 1) hp hf = Some (hp, hf)"
    by (subst percolate_loop.simps) simp
  ultimately show ?case using "0.prems" by simp
next
  case (Suc k)
  let ?a = "hp ! k" and ?b = "hp ! Suc k"
  have rds: "rd hp (int k) = Some ?a" "rd hp (int k + 1) = Some ?b"
       "rd hf (int k) = Some (hf ! k)" "rd hf (int k + 1) = Some (hf ! Suc k)"
    using Suc.prems by (simp_all add: rd_def nat_add_distrib)
  show ?case
  proof (cases "?a < ?b")
    case False
    have "sorted_wrt (\<ge>) hp"
      unfolding sorted_wrt_iff_nth_less
    proof (intro allI impI)
      fix a b assume ab: "a < b" "b < length hp"
      show "hp ! b \<le> hp ! a"
      proof (cases "a = Suc k")
        case True then show ?thesis using ab Suc.prems by auto
      next
        case na: False
        show ?thesis
        proof (cases "b = Suc k")
          case nb: False then show ?thesis using ab na Suc.prems by auto
        next
          case True
          then have "a \<le> k" using ab by simp
          have "hp ! k \<le> hp ! a"
          proof (cases "a = k")
            case True then show ?thesis by simp
          next
            case False
            then have "a < k" using \<open>a \<le> k\<close> by simp
            then show ?thesis using Suc.prems by auto
          qed
          with False True show ?thesis by simp
        qed
      qed
    qed
    moreover have "percolate_loop (int (Suc k) - 1) hp hf = Some (hp, hf)"
      by (subst percolate_loop.simps) (simp add: rds False)
    ultimately show ?thesis using Suc.prems by simp
  next
    case True
    define hp2 where "hp2 = hp[k := ?b, Suc k := ?a]"
    define hf2 where "hf2 = hf[k := hf ! Suc k, Suc k := hf ! k]"
    have wrs: "wr hp (int k) ?b = Some (hp[k := ?b])"
         "wr (hp[k := ?b]) (int k + 1) ?a = Some hp2"
         "wr hf (int k) (hf ! Suc k) = Some (hf[k := hf ! Suc k])"
         "wr (hf[k := hf ! Suc k]) (int k + 1) (hf ! k) = Some hf2"
      using Suc.prems by (simp_all add: wr_def nat_add_distrib hp2_def hf2_def)
    have step: "percolate_loop (int (Suc k) - 1) hp hf = percolate_loop (int k - 1) hp2 hf2"
      by (subst percolate_loop.simps) (simp add: rds True wrs)
    have len: "length hp2 = n" "length hf2 = n" "k < n"
      using Suc.prems by (simp_all add: hp2_def hf2_def)
    have i1: "\<forall>a b. a < b \<and> b < n \<and> a \<noteq> k \<and> b \<noteq> k \<longrightarrow> hp2 ! b \<le> hp2 ! a"
    proof (intro allI impI)
      fix a b assume h: "a < b \<and> b < n \<and> a \<noteq> k \<and> b \<noteq> k"
      show "hp2 ! b \<le> hp2 ! a"
      proof (cases "a = Suc k")
        case True
        then have "hp2 ! a = hp ! k" "hp2 ! b = hp ! b"
          using h Suc.prems by (simp_all add: hp2_def)
        moreover have "hp ! b \<le> hp ! k" using h True Suc.prems(4) by auto
        ultimately show ?thesis by simp
      next
        case na: False
        show ?thesis
        proof (cases "b = Suc k")
          case True
          then have "hp2 ! b = hp ! k" "hp2 ! a = hp ! a"
            using h na Suc.prems by (simp_all add: hp2_def)
          moreover have "a < k" using h True by simp
          then have "hp ! k \<le> hp ! a" using Suc.prems(4,3) by auto
          ultimately show ?thesis by simp
        next
          case False
          then have "hp2 ! b = hp ! b" "hp2 ! a = hp ! a"
            using h na by (simp_all add: hp2_def)
          then show ?thesis using h na False Suc.prems(4) by auto
        qed
      qed
    qed
    have i2: "\<forall>b. k < b \<and> b < n \<longrightarrow> hp2 ! b \<le> hp2 ! k"
    proof (intro allI impI)
      fix b assume h: "k < b \<and> b < n"
      have k: "hp2 ! k = ?b" using Suc.prems by (simp add: hp2_def)
      show "hp2 ! b \<le> hp2 ! k"
      proof (cases "b = Suc k")
        case True
        then have "hp2 ! b = ?a" using Suc.prems by (simp add: hp2_def)
        with k \<open>?a < ?b\<close> show ?thesis by simp
      next
        case False
        then have "hp2 ! b = hp ! b" using h by (simp add: hp2_def)
        moreover have "hp ! b \<le> ?b" using h False Suc.prems(5) by auto
        ultimately show ?thesis using k by simp
      qed
    qed
    from Suc.IH [OF len i1 i2]
    obtain hp' hf' where r: "percolate_loop (int k - 1) hp2 hf2 = Some (hp', hf')"
      and l: "length hp' = n" "length hf' = n" and s: "sorted_wrt (\<ge>) hp'"
      and m: "mset (zip hp' hf') = mset (zip hp2 hf2)"
      by blast
    have "zip hp2 hf2 = (zip hp hf)[k := (zip hp hf) ! Suc k, Suc k := (zip hp hf) ! k]"
      using Suc.prems by (simp add: hp2_def hf2_def zip_update [symmetric])
    then have "mset (zip hp2 hf2) = mset (zip hp hf)"
      using Suc.prems mset_swap [of "Suc k" "zip hp hf" k] by simp
    with r l s m step show ?thesis by simp
  qed
qed

lemma percolate_ok:
  assumes "length hp = n" "length hf = n" "numcands = int n" "1 \<le> n"
    and "sorted_wrt (\<ge>) (take (n - 1) hp)"
  shows "\<exists>hp' hf'. percolate_pows_and_freqs hp hf numcands = Some (hp' ! (n - 1), hp', hf')
           \<and> length hp' = n \<and> length hf' = n
           \<and> sorted_wrt (\<ge>) hp' \<and> mset (zip hp' hf') = mset (zip hp hf)"
proof -
  have k: "n - 1 < n" using assms by simp
  have i1: "\<forall>a b. a < b \<and> b < n \<and> a \<noteq> n - 1 \<and> b \<noteq> n - 1 \<longrightarrow> hp ! b \<le> hp ! a"
    using assms(1,5) by (auto simp: sorted_wrt_iff_nth_less)
  have i2: "\<forall>b. n - 1 < b \<and> b < n \<longrightarrow> hp ! b \<le> hp ! (n - 1)"
    by auto
  from percolate_loop_inv [OF assms(1,2) k i1 i2]
  obtain hp' hf' where r: "percolate_loop (int (n - 1) - 1) hp hf = Some (hp', hf')"
    and l: "length hp' = n" "length hf' = n" and s: "sorted_wrt (\<ge>) hp'"
    and m: "mset (zip hp' hf') = mset (zip hp hf)"
    by blast
  have e: "int (n - 1) - 1 = numcands - 2" using assms by simp
  have "rd hp' (numcands - 1) = Some (hp' ! (n - 1))"
    using assms l by (simp add: rd_def nat_diff_distrib)
  moreover have "percolate_loop (numcands - 2) hp hf = Some (hp', hf')"
    using r unfolding e .
  ultimately have "percolate_pows_and_freqs hp hf numcands = Some (hp' ! (n - 1), hp', hf')"
    by (simp add: percolate_pows_and_freqs_def)
  with l s m show ?thesis by blast
qed

lemma scanned_pairs_step:
  assumes "1 \<le> ii"
  shows "scanned_pairs sumpows (ii + 1)
    = scanned_pairs sumpows ii
      @ (if 0 < sumpows ! nat ii then [(sumpows ! nat ii, 0.5 * real_of_int ii)] else [])"
proof -
  have "[1..ii + 1 - 1] = [1..ii - 1] @ [ii]"
    using assms upto_rec2 [of 1 ii] by simp
  then show ?thesis by (simp add: scanned_pairs_def)
qed

lemma scanned_pairs_mem:
  "1 \<le> ii \<Longrightarrow> ii < numtosearch \<Longrightarrow> 0 < sumpows ! nat ii
     \<Longrightarrow> (sumpows ! nat ii, 0.5 * real_of_int ii) \<in> set (scanned_pairs sumpows numtosearch)"
  by (auto simp: scanned_pairs_def)

lemma scanned_pairs_pos: "p \<in> set (scanned_pairs sumpows numtosearch) \<Longrightarrow> 0 < fst p"
  by (auto simp: scanned_pairs_def)

lemma scan_loop_inv:
  assumes "length hp = n" "length hf = n" "numcands = int n" "1 \<le> n"
    and "1 \<le> ii" "numtosearch \<le> int (length sumpows)"
    and "sorted_wrt (\<ge>) hp" "minpow = hp ! (n - 1)"
    and "set (zip hp hf) \<subseteq> insert (0, 0) (set (scanned_pairs sumpows numtosearch))"
    and "n \<le> count (mset (zip hp hf)) (0, 0) + length (scanned_pairs sumpows ii)"
  shows "\<exists>hp' hf'. scan_loop sumpows numtosearch numcands ii minpow hp hf = Some (hp', hf')
           \<and> length hp' = n \<and> length hf' = n \<and> sorted_wrt (\<ge>) hp'
           \<and> set (zip hp' hf') \<subseteq> insert (0, 0) (set (scanned_pairs sumpows numtosearch))
           \<and> n \<le> count (mset (zip hp' hf')) (0, 0)
                    + length (scanned_pairs sumpows (max ii numtosearch))"
  using assms
proof (induction "nat (numtosearch - ii)" arbitrary: ii minpow hp hf)
  case 0
  then have "\<not> ii < numtosearch" by simp
  then have "scan_loop sumpows numtosearch numcands ii minpow hp hf = Some (hp, hf)"
    by (subst scan_loop.simps) simp
  moreover have "max ii numtosearch = ii" using \<open>\<not> ii < numtosearch\<close> by simp
  ultimately show ?case using "0.prems" by simp
next
  case (Suc d)
  then have lt: "ii < numtosearch" by simp
  then have mx: "max ii numtosearch = max (ii + 1) numtosearch" by simp
  have d: "d = nat (numtosearch - (ii + 1))" using Suc.hyps(2) by simp
  let ?s = "sumpows ! nat ii" and ?f = "0.5 * real_of_int ii"
  have rds: "rd sumpows ii = Some ?s"
    using lt Suc.prems by (simp add: rd_def)
  have last_in: "(hp ! (n - 1), hf ! (n - 1)) \<in> set (zip hp hf)"
    using Suc.prems(1,2,4) by (auto simp: set_zip intro!: exI [of _ "n - 1"])
  have minpow0: "0 \<le> minpow"
    using last_in Suc.prems(8,9) scanned_pairs_pos [of "(hp ! (n - 1), hf ! (n - 1))" sumpows numtosearch]
    by auto
  show ?case
  proof (cases "?s > minpow")
    case False
    have step: "scan_loop sumpows numtosearch numcands ii minpow hp hf
        = scan_loop sumpows numtosearch numcands (ii + 1) minpow hp hf"
      by (subst scan_loop.simps) (simp add: lt rds False)
    have c: "n \<le> count (mset (zip hp hf)) (0, 0) + length (scanned_pairs sumpows (ii + 1))"
      using Suc.prems(10) by (simp add: scanned_pairs_step [OF Suc.prems(5)])
    have i: "1 \<le> ii + 1" using Suc.prems(5) by simp
    from Suc.hyps(1) [OF d Suc.prems(1,2,3,4) i Suc.prems(6,7,8,9) c]
    show ?thesis unfolding step mx .
  next
    case True
    then have spos: "0 < ?s" using minpow0 by simp
    define hp1 where "hp1 = hp[n - 1 := ?s]"
    define hf1 where "hf1 = hf[n - 1 := ?f]"
    have wrs: "wr hp (numcands - 1) ?s = Some hp1" "wr hf (numcands - 1) (real_of_int ii / 2) = Some hf1"
      using Suc.prems(1,2,3,4) by (simp_all add: wr_def hp1_def hf1_def nat_diff_distrib)
    have l1: "length hp1 = n" "length hf1 = n" using Suc.prems by (simp_all add: hp1_def hf1_def)
    have "take (n - 1) hp1 = take (n - 1) hp" by (simp add: hp1_def)
    then have s1: "sorted_wrt (\<ge>) (take (n - 1) hp1)"
      using Suc.prems(7) sorted_wrt_take by auto
    from percolate_ok [OF l1 Suc.prems(3,4) s1]
    obtain hp' hf' where p: "percolate_pows_and_freqs hp1 hf1 numcands = Some (hp' ! (n - 1), hp', hf')"
      and l': "length hp' = n" "length hf' = n" and s': "sorted_wrt (\<ge>) hp'"
      and m': "mset (zip hp' hf') = mset (zip hp1 hf1)"
      by blast
    have step: "scan_loop sumpows numtosearch numcands ii minpow hp hf
        = scan_loop sumpows numtosearch numcands (ii + 1) (hp' ! (n - 1)) hp' hf'"
      by (subst scan_loop.simps) (simp add: lt rds True wrs p)
    have z1: "zip hp1 hf1 = (zip hp hf)[n - 1 := (?s, ?f)]"
      by (simp add: hp1_def hf1_def zip_update)
    have "set (zip hp' hf') = set (zip hp1 hf1)"
      using m' by (metis set_mset_mset)
    also have "\<dots> \<subseteq> insert (?s, ?f) (set (zip hp hf))"
      unfolding z1 by (rule set_update_subset_insert)
    finally have sub: "set (zip hp' hf') \<subseteq> insert (0, 0) (set (scanned_pairs sumpows numtosearch))"
      using Suc.prems(9) scanned_pairs_mem [OF Suc.prems(5) lt spos] by auto
    have nz: "(?s, ?f) \<noteq> (0, 0)" using spos by simp
    have "mset (zip hp1 hf1) = add_mset (?s, ?f) (mset (zip hp hf) - {#zip hp hf ! (n - 1)#})"
      unfolding z1 using Suc.prems(1,2,4) by (intro mset_update) simp
    then have "count (mset (zip hp' hf')) (0, 0)
                 = count (mset (zip hp hf) - {#zip hp hf ! (n - 1)#}) (0, 0)"
      using m' nz by simp
    then have "count (mset (zip hp hf)) (0, 0) \<le> count (mset (zip hp' hf')) (0, 0) + 1"
      by (simp split: if_splits)
    then have c: "n \<le> count (mset (zip hp' hf')) (0, 0) + length (scanned_pairs sumpows (ii + 1))"
      using Suc.prems(10) spos by (simp add: scanned_pairs_step [OF Suc.prems(5)])
    have i: "1 \<le> ii + 1" using Suc.prems(5) by simp
    from Suc.hyps(1) [OF d l' Suc.prems(3,4) i Suc.prems(6) s' refl sub c]
    show ?thesis unfolding step mx .
  qed
qed

lemma scanned_pairs_max1: "scanned_pairs sumpows (max 1 numtosearch) = scanned_pairs sumpows numtosearch"
  by (cases "1 \<le> numtosearch") (simp_all add: max_def scanned_pairs_def)

lemma search_summed_powers_ok:
  assumes "length hp0 = n" "length hf0 = n" "numcands = int n" "1 \<le> n"
    and "numtosearch \<le> int (length sumpows)"
  shows "\<exists>hp hf. search_summed_powers sumpows numtosearch numcands hp0 hf0 = Some (hp, hf)
           \<and> length hp = n \<and> length hf = n \<and> sorted_wrt (\<ge>) hp
           \<and> set (zip hp hf) \<subseteq> insert (0, 0) (set (scanned_pairs sumpows numtosearch))
           \<and> n \<le> count (mset (zip hp hf)) (0, 0) + length (scanned_pairs sumpows numtosearch)"
proof -
  let ?z = "replicate n (0::real)"
  have c: "clear_loop numcands 0 hp0 hf0 = Some (?z, ?z)"
    using assms by (intro clear_loop_replicate) simp_all
  have z: "zip ?z ?z = replicate n (0, 0)" by (simp add: zip_replicate)
  have s: "sorted_wrt (\<ge>) ?z" by (simp add: sorted_wrt_iff_nth_less)
  have m: "0 = ?z ! (n - 1)" using assms(4) by simp
  have sub: "set (zip ?z ?z) \<subseteq> insert (0, 0) (set (scanned_pairs sumpows numtosearch))"
    unfolding z by auto
  have cnt: "n \<le> count (mset (zip ?z ?z)) (0, 0) + length (scanned_pairs sumpows 1)"
    unfolding z by simp
  from scan_loop_inv [OF _ _ assms(3,4) _ assms(5) s m sub cnt]
  obtain hp hf where "scan_loop sumpows numtosearch numcands 1 0 ?z ?z = Some (hp, hf)"
    "length hp = n" "length hf = n" "sorted_wrt (\<ge>) hp"
    "set (zip hp hf) \<subseteq> insert (0, 0) (set (scanned_pairs sumpows numtosearch))"
    "n \<le> count (mset (zip hp hf)) (0, 0) + length (scanned_pairs sumpows (max 1 numtosearch))"
    by auto
  then show ?thesis
    by (simp add: search_summed_powers_def c scanned_pairs_max1)
qed

lemma trailing_zero:
  fixes hp hf :: "real list"
  assumes "length hp = n" "length hf = n" "sorted_wrt (\<ge>) hp"
    and "\<forall>p \<in> set (zip hp hf). p = (0, 0) \<or> 0 < fst p"
    and "n \<le> count (mset (zip hp hf)) (0, 0) + m" "m \<le> j" "j < n"
  shows "hp ! j = 0 \<and> hf ! j = 0"
proof (rule ccontr)
  assume neg: "\<not> (hp ! j = 0 \<and> hf ! j = 0)"
  let ?zs = "zip hp hf"
  have lz: "length ?zs = n" using assms by simp
  have "?zs ! j \<in> set ?zs" using lz assms(7) by (metis nth_mem)
  moreover have "?zs ! j = (hp ! j, hf ! j)" using assms by simp
  ultimately have pj: "0 < hp ! j" using assms(4) neg by auto
  have nz: "?zs ! i \<noteq> (0, 0)" if "i \<le> j" for i
  proof -
    have "hp ! j \<le> hp ! i"
      using that assms(1,3,7) by (cases "i = j") (auto simp: sorted_wrt_iff_nth_less)
    with pj have "0 < hp ! i" by simp
    moreover have "?zs ! i = (hp ! i, hf ! i)" using that assms by simp
    ultimately show ?thesis by simp
  qed
  have "count (mset ?zs) (0, 0) = card {i. i < length ?zs \<and> (0, 0) = ?zs ! i}"
    by (simp only: count_mset count_list_eq_length_filter length_filter_conv_card)
  also have "\<dots> \<le> card {Suc j..<n}"
  proof (rule card_mono)
    show "{i. i < length ?zs \<and> (0, 0) = ?zs ! i} \<subseteq> {Suc j..<n}"
    proof
      fix i assume "i \<in> {i. i < length ?zs \<and> (0, 0) = ?zs ! i}"
      then have "i < n" "?zs ! i = (0, 0)" using assms(1,2) by auto
      with nz [of i] have "\<not> i \<le> j" by blast
      with \<open>i < n\<close> show "i \<in> {Suc j..<n}" by simp
    qed
  qed simp
  finally have "count (mset ?zs) (0, 0) \<le> n - Suc j" by simp
  with assms(5,6,7) show False by simp
qed

lemma scan_loop_bin0:
  assumes "1 \<le> ii"
  shows "scan_loop (sumpows[0 := x]) numtosearch numcands ii minpow hp hf
       = scan_loop sumpows numtosearch numcands ii minpow hp hf"
  using assms
proof (induction "nat (numtosearch - ii)" arbitrary: ii minpow hp hf)
  case 0
  then have "\<not> ii < numtosearch" by simp
  then show ?case
    by (simp add: scan_loop.simps [of _ numtosearch numcands ii])
next
  case (Suc d)
  have r: "rd (sumpows[0 := x]) ii = rd sumpows ii"
    using Suc.prems by (simp add: rd_def)
  have d: "d = nat (numtosearch - (ii + 1))" using Suc.hyps(2) by simp
  have i: "1 \<le> ii + 1" using Suc.prems by simp
  note IH = Suc.hyps(1) [OF d i]
  show ?case
    unfolding scan_loop.simps [of _ numtosearch numcands ii] r IH ..
qed

lemma insert_step:
  fixes hp hf :: "real list"
  assumes "length hp = n" "length hf = n" "numcands = int n" "1 \<le> n" "sorted_wrt (\<ge>) hp"
  shows "\<exists>hp1 hf1 hp' hf'.
           wr hp (numcands - 1) s = Some hp1 \<and> wr hf (numcands - 1) f = Some hf1
         \<and> percolate_pows_and_freqs hp1 hf1 numcands = Some (last hp', hp', hf')
         \<and> length hp' = n \<and> length hf' = n \<and> sorted_wrt (\<ge>) hp'
         \<and> mset (zip hp' hf') = add_mset (s, f) (mset (zip hp hf) - {#(last hp, last hf)#})"
proof -
  define hp1 where "hp1 = hp[n - 1 := s]"
  define hf1 where "hf1 = hf[n - 1 := f]"
  have wrs: "wr hp (numcands - 1) s = Some hp1" "wr hf (numcands - 1) f = Some hf1"
    using assms(1-4) by (simp_all add: wr_def hp1_def hf1_def nat_diff_distrib)
  have l1: "length hp1 = n" "length hf1 = n" using assms by (simp_all add: hp1_def hf1_def)
  have "take (n - 1) hp1 = take (n - 1) hp" by (simp add: hp1_def)
  then have s1: "sorted_wrt (\<ge>) (take (n - 1) hp1)"
    using assms(5) sorted_wrt_take by auto
  from percolate_ok [OF l1 assms(3,4) s1]
  obtain hp' hf' where p: "percolate_pows_and_freqs hp1 hf1 numcands = Some (hp' ! (n - 1), hp', hf')"
    and l': "length hp' = n" "length hf' = n" and s': "sorted_wrt (\<ge>) hp'"
    and m': "mset (zip hp' hf') = mset (zip hp1 hf1)"
    by blast
  have "hp' \<noteq> []" "hp \<noteq> []" "hf \<noteq> []"
    using assms(1,2,4) l' by auto
  then have la: "last hp' = hp' ! (n - 1)" "last hp = hp ! (n - 1)" "last hf = hf ! (n - 1)"
    using assms(1,2) l' by (simp_all add: last_conv_nth)
  have z1: "zip hp1 hf1 = (zip hp hf)[n - 1 := (s, f)]"
    by (simp add: hp1_def hf1_def zip_update)
  have "mset (zip hp1 hf1) = add_mset (s, f) (mset (zip hp hf) - {#zip hp hf ! (n - 1)#})"
    unfolding z1 using assms(1,2,4) by (intro mset_update) simp
  moreover have "zip hp hf ! (n - 1) = (last hp, last hf)"
    using assms(1,2,4) la by simp
  ultimately have "mset (zip hp' hf') = add_mset (s, f) (mset (zip hp hf) - {#(last hp, last hf)#})"
    using m' by simp
  with wrs p l' s' la(1) show ?thesis by auto
qed

lemma scanned_pairs_origin:
  assumes "p \<in> set (scanned_pairs sumpows numtosearch)"
  shows "\<exists>i. 1 \<le> i \<and> i < numtosearch \<and> 0 < sumpows ! nat i
           \<and> p = (sumpows ! nat i, 0.5 * real_of_int i)"
  using assms by (auto simp: scanned_pairs_def)


lemma vector_lengths:
  assumes "int (length highpows) = numcands" "int (length highfreqs) = numcands" "1 \<le> numcands"
  shows "length highfreqs = length highpows" "numcands = int (length highpows)"
    "1 \<le> length highpows"
  using assms by simp_all

section \<open>The candidate list: what one search establishes\<close>

lemma tracker_sorted_and_paired:
  fixes highpows highfreqs sumpows :: "real list"
  assumes "int (length highpows) = numcands" "int (length highfreqs) = numcands"
    and "1 \<le> numcands" "numtosearch \<le> int (length sumpows)"
  shows "(\<exists>hp hf. clear_loop numcands 0 highpows highfreqs = Some (hp, hf)
            \<and> hp = replicate (nat numcands) 0 \<and> hf = replicate (nat numcands) 0
            \<and> sorted_wrt (\<ge>) hp)
       \<and> (\<forall>hp hf s f. int (length hp) = numcands \<and> int (length hf) = numcands
                \<and> sorted_wrt (\<ge>) hp \<longrightarrow>
            (\<exists>hp1 hf1 hp' hf'.
                wr hp (numcands - 1) s = Some hp1 \<and> wr hf (numcands - 1) f = Some hf1
              \<and> percolate_pows_and_freqs hp1 hf1 numcands = Some (last hp', hp', hf')
              \<and> int (length hp') = numcands \<and> int (length hf') = numcands
              \<and> sorted_wrt (\<ge>) hp'
              \<and> mset (zip hp' hf')
                  = add_mset (s, f) (mset (zip hp hf) - {#(last hp, last hf)#})))
       \<and> (\<exists>hp hf. search_summed_powers sumpows numtosearch numcands highpows highfreqs
                     = Some (hp, hf)
            \<and> int (length hp) = numcands \<and> int (length hf) = numcands
            \<and> sorted_wrt (\<ge>) hp
            \<and> (\<forall>j<length hp. (hp ! j, hf ! j) = (0, 0)
                  \<or> (\<exists>i. 1 \<le> i \<and> i < numtosearch \<and> sumpows ! nat i = hp ! j
                         \<and> 0.5 * real_of_int i = hf ! j)))"
proof (intro conjI)
  define n where "n = length highpows"
  note v = vector_lengths [OF assms(1-3), folded n_def]
  have "clear_loop numcands 0 highpows highfreqs = Some (replicate n 0, replicate n 0)"
    using v by (intro clear_loop_replicate) (simp_all add: n_def)
  moreover have "sorted_wrt (\<ge>) (replicate n (0::real))"
    by (simp add: sorted_wrt_iff_nth_less)
  moreover have "nat numcands = n" using v by simp
  ultimately show "\<exists>hp hf. clear_loop numcands 0 highpows highfreqs = Some (hp, hf)
            \<and> hp = replicate (nat numcands) 0 \<and> hf = replicate (nat numcands) 0
            \<and> sorted_wrt (\<ge>) hp"
    by simp
next
  show "\<forall>hp hf s f. int (length hp) = numcands \<and> int (length hf) = numcands
                \<and> sorted_wrt (\<ge>) hp \<longrightarrow>
            (\<exists>hp1 hf1 hp' hf'.
                wr hp (numcands - 1) s = Some hp1 \<and> wr hf (numcands - 1) f = Some hf1
              \<and> percolate_pows_and_freqs hp1 hf1 numcands = Some (last hp', hp', hf')
              \<and> int (length hp') = numcands \<and> int (length hf') = numcands
              \<and> sorted_wrt (\<ge>) hp'
              \<and> mset (zip hp' hf')
                  = add_mset (s, f) (mset (zip hp hf) - {#(last hp, last hf)#}))"
  proof (intro allI impI)
    fix hp hf :: "real list" and s f :: real
    assume a: "int (length hp) = numcands \<and> int (length hf) = numcands \<and> sorted_wrt (\<ge>) hp"
    then have v: "length hf = length hp" "numcands = int (length hp)" "1 \<le> length hp"
      using assms(3) by simp_all
    from insert_step [OF refl v(1) v(2) v(3), of s f] a
    obtain hp1 hf1 hp' hf' where
      "wr hp (numcands - 1) s = Some hp1" "wr hf (numcands - 1) f = Some hf1"
      "percolate_pows_and_freqs hp1 hf1 numcands = Some (last hp', hp', hf')"
      "length hp' = length hp" "length hf' = length hp" "sorted_wrt (\<ge>) hp'"
      "mset (zip hp' hf') = add_mset (s, f) (mset (zip hp hf) - {#(last hp, last hf)#})"
      by blast
    then show "\<exists>hp1 hf1 hp' hf'.
                wr hp (numcands - 1) s = Some hp1 \<and> wr hf (numcands - 1) f = Some hf1
              \<and> percolate_pows_and_freqs hp1 hf1 numcands = Some (last hp', hp', hf')
              \<and> int (length hp') = numcands \<and> int (length hf') = numcands
              \<and> sorted_wrt (\<ge>) hp'
              \<and> mset (zip hp' hf')
                  = add_mset (s, f) (mset (zip hp hf) - {#(last hp, last hf)#})"
      using v(2) by auto
  qed
next
  define n where "n = length highpows"
  note v = vector_lengths [OF assms(1-3), folded n_def]
  from search_summed_powers_ok [OF n_def [symmetric] v assms(4)]
  obtain hp hf where r: "search_summed_powers sumpows numtosearch numcands highpows highfreqs = Some (hp, hf)"
    and l: "length hp = n" "length hf = n" and s: "sorted_wrt (\<ge>) hp"
    and sub: "set (zip hp hf) \<subseteq> insert (0, 0) (set (scanned_pairs sumpows numtosearch))"
    by blast
  have "(hp ! j, hf ! j) = (0, 0)
           \<or> (\<exists>i. 1 \<le> i \<and> i < numtosearch \<and> sumpows ! nat i = hp ! j
                  \<and> 0.5 * real_of_int i = hf ! j)" if "j < n" for j
  proof -
    have "(hp ! j, hf ! j) \<in> set (zip hp hf)"
      using that l by (auto simp: set_zip)
    with sub consider "(hp ! j, hf ! j) = (0, 0)"
      | "(hp ! j, hf ! j) \<in> set (scanned_pairs sumpows numtosearch)"
      by auto
    then show ?thesis
    proof cases
      case 1
      then show ?thesis by (rule disjI1)
    next
      case 2
      from scanned_pairs_origin [OF 2]
      obtain i where "1 \<le> i" "i < numtosearch"
        and e: "(hp ! j, hf ! j) = (sumpows ! nat i, 0.5 * real_of_int i)"
        by blast
      from e have "sumpows ! nat i = hp ! j" "0.5 * real_of_int i = hf ! j"
        by (simp_all only: prod.inject)
      with \<open>1 \<le> i\<close> \<open>i < numtosearch\<close> show ?thesis by blast
    qed
  qed
  with r l s v(2) show "\<exists>hp hf. search_summed_powers sumpows numtosearch numcands highpows highfreqs
                     = Some (hp, hf)
            \<and> int (length hp) = numcands \<and> int (length hf) = numcands
            \<and> sorted_wrt (\<ge>) hp
            \<and> (\<forall>j<length hp. (hp ! j, hf ! j) = (0, 0)
                  \<or> (\<exists>i. 1 \<le> i \<and> i < numtosearch \<and> sumpows ! nat i = hp ! j
                         \<and> 0.5 * real_of_int i = hf ! j))"
    by auto
qed

lemma bind_weak_cong: "m = m' \<Longrightarrow> Option.bind m f = Option.bind m' f"
  by simp

lemmas tracker_eval = search_summed_powers_def clear_loop.simps scan_loop.simps
  percolate_loop.simps percolate_pows_and_freqs_def rd_def wr_def

lemma search_eval_2:
  "search_summed_powers [1, 0, 25, 0, 4] 5 2 [9, 9] [9, 9] = Some ([25, 4], [1, 2])"
  by (simp add: tracker_eval cong: bind_weak_cong)

lemma positive_bins_eq: "length (scanned_pairs sumpows numtosearch) = positive_bins sumpows numtosearch"
  by (simp add: scanned_pairs_def positive_bins_def)

lemma search_summed_powers_bin0:
  "search_summed_powers (sumpows[0 := x]) numtosearch numcands highpows highfreqs
     = search_summed_powers sumpows numtosearch numcands highpows highfreqs"
  by (simp add: search_summed_powers_def scan_loop_bin0)

lemma tracker_unfilled_slots:
  fixes highpows highfreqs sumpows :: "real list"
  assumes "int (length highpows) = numcands" "int (length highfreqs) = numcands"
    and "1 \<le> numcands" "numtosearch \<le> int (length sumpows)"
    and "int (positive_bins sumpows numtosearch) < numcands"
  shows "\<exists>hp hf. search_summed_powers sumpows numtosearch numcands highpows highfreqs = Some (hp, hf)
           \<and> int (length hp) = numcands \<and> int (length hf) = numcands
           \<and> (\<forall>j. positive_bins sumpows numtosearch \<le> j \<and> j < length hp
                  \<longrightarrow> hp ! j = 0 \<and> hf ! j = 0)
           \<and> (\<forall>x. search_summed_powers (sumpows[0 := x]) numtosearch numcands highpows highfreqs
                   = Some (hp, hf))"
proof -
  define n where "n = length highpows"
  note v = vector_lengths [OF assms(1-3), folded n_def]
  from search_summed_powers_ok [OF n_def [symmetric] v assms(4)]
  obtain hp hf where r: "search_summed_powers sumpows numtosearch numcands highpows highfreqs = Some (hp, hf)"
    and l: "length hp = n" "length hf = n" and s: "sorted_wrt (\<ge>) hp"
    and sub: "set (zip hp hf) \<subseteq> insert (0, 0) (set (scanned_pairs sumpows numtosearch))"
    and c: "n \<le> count (mset (zip hp hf)) (0, 0) + length (scanned_pairs sumpows numtosearch)"
    by blast
  have pos: "\<forall>p \<in> set (zip hp hf). p = (0, 0) \<or> 0 < fst p"
    using sub scanned_pairs_pos by blast
  have c': "n \<le> count (mset (zip hp hf)) (0, 0) + positive_bins sumpows numtosearch"
    using c by (simp only: positive_bins_eq)
  have "hp ! j = 0 \<and> hf ! j = 0" if "positive_bins sumpows numtosearch \<le> j" "j < n" for j
    using trailing_zero [OF l s pos c' that] .
  with r l v(2) show ?thesis
    by (simp add: search_summed_powers_bin0)
qed

lemma search_eval_3:
  "search_summed_powers [1, 0, 25, 0, 4] 5 3 [9, 9, 9] [9, 9, 9] = Some ([25, 4, 0], [1, 2, 0])"
  by (simp add: tracker_eval cong: bind_weak_cong)

lemma positive_bins_eval: "positive_bins [1, 0, 25, 0, 4] 5 = 2"
  by (simp add: positive_bins_def upto.simps)

lemma tracker_powers_nonnegative:
  fixes highpows highfreqs sumpows :: "real list"
  assumes "int (length highpows) = numcands" "int (length highfreqs) = numcands"
    and "1 \<le> numcands" "numtosearch \<le> int (length sumpows)"
  shows "\<exists>hp hf. search_summed_powers sumpows numtosearch numcands highpows highfreqs = Some (hp, hf)
           \<and> int (length hp) = numcands \<and> (\<forall>p \<in> set hp. 0 \<le> p)"
proof -
  define n where "n = length highpows"
  note v = vector_lengths [OF assms(1-3), folded n_def]
  from search_summed_powers_ok [OF n_def [symmetric] v assms(4)]
  obtain hp hf where r: "search_summed_powers sumpows numtosearch numcands highpows highfreqs = Some (hp, hf)"
    and l: "length hp = n" "length hf = n"
    and sub: "set (zip hp hf) \<subseteq> insert (0, 0) (set (scanned_pairs sumpows numtosearch))"
    by blast
  have "0 \<le> p" if "p \<in> set hp" for p
  proof -
    from that obtain j where j: "j < n" "p = hp ! j"
      using l by (auto simp: in_set_conv_nth)
    then have "(p, hf ! j) \<in> set (zip hp hf)"
      using l by (auto simp: set_zip)
    with sub have "(p, hf ! j) = (0, 0) \<or> (p, hf ! j) \<in> set (scanned_pairs sumpows numtosearch)"
      by auto
    then show ?thesis
      using scanned_pairs_pos [of "(p, hf ! j)" sumpows numtosearch] by auto
  qed
  with r l v(2) show ?thesis by auto
qed

lemma search_eval_neg:
  "search_summed_powers [1, - 3, 25, - 7] 4 2 [9, 9] [9, 9] = Some ([25, 0], [1, 0])"
  by (simp add: tracker_eval cong: bind_weak_cong)

lemma sdiv_nonpos:
  assumes "(a::int) \<le> 0" "0 < b"
  shows "a sdiv b \<le> 0"
proof (cases "a = 0")
  case True
  then show ?thesis by simp
next
  case False
  then have "a < 0" using assms(1) by simp
  moreover have "0 \<le> \<bar>a\<bar> div b"
    using assms(2) by (simp add: pos_imp_zdiv_nonneg_iff)
  ultimately show ?thesis
    using assms(2) by (simp add: signed_divide_int_def sgn_if)
qed

lemma harm_index_bounds:
  fixes ii jj kk nmini4 :: int
  assumes "1 \<le> ii" "1 \<le> jj" "jj < nmini4 sdiv ii" "0 \<le> kk" "kk < ii"
  shows "1 \<le> jj * ii + kk - ii sdiv 2" "jj * ii + kk - ii sdiv 2 < nmini4"
    "jj < nmini4" "ii sdiv 2 = ii div 2" "nmini4 sdiv ii = nmini4 div ii"
proof -
  have pos: "0 < nmini4"
  proof (rule ccontr)
    assume "\<not> 0 < nmini4"
    then have "nmini4 sdiv ii \<le> 0"
      using assms(1) sdiv_nonpos [of nmini4 ii] by simp
    with assms(2,3) show False by simp
  qed
  show d2: "ii sdiv 2 = ii div 2"
    using assms(1) by (intro sdiv_nonneg_eq_div) simp_all
  show dn: "nmini4 sdiv ii = nmini4 div ii"
    using assms(1) pos by (intro sdiv_nonneg_eq_div) simp_all
  have "jj + 1 \<le> nmini4 div ii" using assms(3) dn by simp
  then have "(jj + 1) * ii \<le> (nmini4 div ii) * ii"
    using assms(1) by (intro mult_right_mono) simp_all
  also have "\<dots> \<le> nmini4"
  proof -
    have "(nmini4 div ii) * ii + nmini4 mod ii = nmini4" by simp
    moreover have "0 \<le> nmini4 mod ii" using assms(1) by simp
    ultimately show ?thesis by linarith
  qed
  finally have up: "jj * ii + ii \<le> nmini4" by (simp add: algebra_simps)
  have "1 * ii \<le> jj * ii"
    using assms(1,2) by (intro mult_right_mono) simp_all
  then have lo: "ii \<le> jj * ii" by simp
  have h: "ii div 2 < ii" "0 \<le> ii div 2" using assms(1) by simp_all
  show "1 \<le> jj * ii + kk - ii sdiv 2" using lo h assms(4) unfolding d2 by linarith
  show "jj * ii + kk - ii sdiv 2 < nmini4" using up h assms(5) unfolding d2 by linarith
  have "jj * 1 \<le> jj * ii"
    using assms(1,2) by (intro mult_left_mono) simp_all
  then show "jj < nmini4" using up assms(1) by simp
qed

lemma length_harm_step [simp]: "length (harm_step src fullpows h jh k sumpows) = length sumpows"
  by (simp add: harm_step_def Let_def)

lemma harm_kk_loop_fold:
  assumes "1 \<le> ii" "1 \<le> jj" "jj < nmini4 sdiv ii" "0 \<le> kk"
    and "length fullpows = nat nmini4" "length sumpows = nat nmini4"
  shows "\<exists>r. harm_kk_loop fullpows ii jj (ii sdiv 2) kk sumpows = Some r
           \<and> r = fold (harm_step (\<lambda>h jh. jh) fullpows ii jj) [kk..ii - 1] sumpows
           \<and> length r = length sumpows \<and> r ! 0 = sumpows ! 0"
  using assms
proof (induction "nat (ii - kk)" arbitrary: kk sumpows)
  case 0
  then have "\<not> kk < ii" by simp
  then have "harm_kk_loop fullpows ii jj (ii sdiv 2) kk sumpows = Some sumpows" "[kk..ii - 1] = []"
    by (simp_all add: harm_kk_loop.simps [of _ ii jj _ kk])
  then show ?case by simp
next
  case (Suc d)
  then have lt: "kk < ii" by simp
  define pos where "pos = jj * ii + kk - ii sdiv 2"
  note b = harm_index_bounds [OF Suc.prems(1,2,3,4) lt, folded pos_def]
  define sp where "sp = sumpows[nat pos := sumpows ! nat pos + fullpows ! nat jj]"
  have acc: "rd sumpows pos = Some (sumpows ! nat pos)" "rd fullpows jj = Some (fullpows ! nat jj)"
      "wr sumpows pos (sumpows ! nat pos + fullpows ! nat jj) = Some sp"
    using b Suc.prems(2,5,6) by (simp_all add: rd_def wr_def sp_def)
  have step: "harm_kk_loop fullpows ii jj (ii sdiv 2) kk sumpows
       = harm_kk_loop fullpows ii jj (ii sdiv 2) (kk + 1) sp"
    by (subst harm_kk_loop.simps) (simp add: lt acc flip: pos_def)
  have hs: "harm_step (\<lambda>h jh. jh) fullpows ii jj kk sumpows = sp"
    by (simp add: harm_step_def Let_def sp_def pos_def b(4))
  have up: "[kk..ii - 1] = kk # [kk + 1..ii - 1]"
    using lt by (simp add: upto_rec1)
  have d: "d = nat (ii - (kk + 1))" using Suc.hyps(2) by simp
  have k1: "0 \<le> kk + 1" using Suc.prems(4) by simp
  have lsp: "length sp = nat nmini4" using Suc.prems(6) by (simp add: sp_def)
  from Suc.hyps(1) [OF d Suc.prems(1,2,3) k1 Suc.prems(5) lsp]
  obtain r where r: "harm_kk_loop fullpows ii jj (ii sdiv 2) (kk + 1) sp = Some r"
    "r = fold (harm_step (\<lambda>h jh. jh) fullpows ii jj) [kk + 1..ii - 1] sp"
    "length r = length sp" "r ! 0 = sp ! 0"
    by blast
  have "sp ! 0 = sumpows ! 0" using b(1) by (simp add: sp_def)
  with r step hs up lsp Suc.prems(6) show ?case by simp
qed


lemma harm_jj_range:
  fixes ii jj nmini4 :: int
  assumes "1 \<le> ii" "1 \<le> jj"
  shows "[jj..nmini4 sdiv ii - 1] = [jj..nmini4 div ii - 1]"
proof (cases "0 \<le> nmini4")
  case True
  then show ?thesis using assms(1) by (simp add: sdiv_nonneg_eq_div)
next
  case False
  then have "nmini4 sdiv ii \<le> 0" "nmini4 div ii \<le> 0"
    using assms(1) sdiv_nonpos [of nmini4 ii] div_neg_pos_less0 [of nmini4 ii] by simp_all
  then show ?thesis using assms(2) by simp
qed

lemma harm_jj_loop_fold:
  assumes "1 \<le> ii" "1 \<le> jj"
    and "length fullpows = nat nmini4" "length sumpows = nat nmini4"
  shows "\<exists>r. harm_jj_loop fullpows nmini4 ii (ii sdiv 2) jj sumpows = Some r
           \<and> r = fold (\<lambda>jh. fold (harm_step (\<lambda>h jh. jh) fullpows ii jh) [0..ii - 1])
                      [jj..nmini4 sdiv ii - 1] sumpows
           \<and> length r = length sumpows \<and> r ! 0 = sumpows ! 0"
  using assms
proof (induction "nat (nmini4 sdiv ii - jj)" arbitrary: jj sumpows)
  case 0
  then have "\<not> jj < nmini4 sdiv ii" by simp
  then have "harm_jj_loop fullpows nmini4 ii (ii sdiv 2) jj sumpows = Some sumpows"
    "[jj..nmini4 sdiv ii - 1] = []"
    by (simp_all add: harm_jj_loop.simps [of _ nmini4 ii _ jj])
  then show ?case by simp
next
  case (Suc d)
  then have lt: "jj < nmini4 sdiv ii" by simp
  from harm_kk_loop_fold [OF Suc.prems(1,2) lt _ Suc.prems(3,4), of 0]
  obtain sp where sp: "harm_kk_loop fullpows ii jj (ii sdiv 2) 0 sumpows = Some sp"
    "sp = fold (harm_step (\<lambda>h jh. jh) fullpows ii jj) [0..ii - 1] sumpows"
    "length sp = length sumpows" "sp ! 0 = sumpows ! 0"
    by auto
  have step: "harm_jj_loop fullpows nmini4 ii (ii sdiv 2) jj sumpows
       = harm_jj_loop fullpows nmini4 ii (ii sdiv 2) (jj + 1) sp"
    by (subst harm_jj_loop.simps) (simp add: lt sp(1))
  have up: "[jj..nmini4 sdiv ii - 1] = jj # [jj + 1..nmini4 sdiv ii - 1]"
    using lt by (simp add: upto_rec1)
  have d: "d = nat (nmini4 sdiv ii - (jj + 1))" using Suc.hyps(2) by simp
  have j1: "1 \<le> jj + 1" using Suc.prems(2) by simp
  have lsp: "length sp = nat nmini4" using Suc.prems(4) sp(3) by simp
  from Suc.hyps(1) [OF d Suc.prems(1) j1 Suc.prems(3) lsp]
  obtain r where r: "harm_jj_loop fullpows nmini4 ii (ii sdiv 2) (jj + 1) sp = Some r"
    "r = fold (\<lambda>jh. fold (harm_step (\<lambda>h jh. jh) fullpows ii jh) [0..ii - 1])
              [jj + 1..nmini4 sdiv ii - 1] sp"
    "length r = length sp" "r ! 0 = sp ! 0"
    by blast
  with step up sp show ?case by simp
qed

lemma harm_ii_loop_fold:
  assumes "1 \<le> ii" "length fullpows = nat nmini4" "length sumpows = nat nmini4"
  shows "\<exists>r. harm_ii_loop fullpows nmini4 harmsum ii sumpows = Some r
           \<and> r = fold (\<lambda>h. fold (\<lambda>jh. fold (harm_step (\<lambda>h jh. jh) fullpows h jh) [0..h - 1])
                                 [1..nmini4 div h - 1])
                      [ii..harmsum] sumpows
           \<and> length r = length sumpows \<and> r ! 0 = sumpows ! 0"
  using assms
proof (induction "nat (harmsum + 1 - ii)" arbitrary: ii sumpows)
  case 0
  then have "\<not> ii \<le> harmsum" by simp
  then have "harm_ii_loop fullpows nmini4 harmsum ii sumpows = Some sumpows" "[ii..harmsum] = []"
    by (simp_all add: harm_ii_loop.simps [of _ nmini4 harmsum ii])
  then show ?case by simp
next
  case (Suc d)
  then have le: "ii \<le> harmsum" by simp
  from harm_jj_loop_fold [OF Suc.prems(1) _ Suc.prems(2,3), of 1]
  obtain sp where sp: "harm_jj_loop fullpows nmini4 ii (ii sdiv 2) 1 sumpows = Some sp"
    "sp = fold (\<lambda>jh. fold (harm_step (\<lambda>h jh. jh) fullpows ii jh) [0..ii - 1])
               [1..nmini4 sdiv ii - 1] sumpows"
    "length sp = length sumpows" "sp ! 0 = sumpows ! 0"
    by auto
  have sp': "sp = fold (\<lambda>jh. fold (harm_step (\<lambda>h jh. jh) fullpows ii jh) [0..ii - 1])
               [1..nmini4 div ii - 1] sumpows"
    using sp(2) harm_jj_range [OF Suc.prems(1), of 1 nmini4] by simp
  have step: "harm_ii_loop fullpows nmini4 harmsum ii sumpows
       = harm_ii_loop fullpows nmini4 harmsum (ii + 1) sp"
    by (subst harm_ii_loop.simps) (simp add: le sp(1) Let_def)
  have up: "[ii..harmsum] = ii # [ii + 1..harmsum]"
    using le by (simp add: upto_rec1)
  have d: "d = nat (harmsum + 1 - (ii + 1))" using Suc.hyps(2) by simp
  have i1: "1 \<le> ii + 1" using Suc.prems(1) by simp
  have lsp: "length sp = nat nmini4" using Suc.prems(3) sp(3) by simp
  from Suc.hyps(1) [OF d i1 Suc.prems(2) lsp]
  obtain r where r: "harm_ii_loop fullpows nmini4 harmsum (ii + 1) sp = Some r"
    "r = fold (\<lambda>h. fold (\<lambda>jh. fold (harm_step (\<lambda>h jh. jh) fullpows h jh) [0..h - 1])
                                 [1..nmini4 div h - 1])
              [ii + 1..harmsum] sp"
    "length r = length sp" "r ! 0 = sp ! 0"
    by blast
  with step up sp(3,4) sp' show ?case by simp
qed

lemma zero_loop_ok:
  assumes "0 \<le> ii" "nmini4 \<le> int (length sumpows)"
  shows "\<exists>r. zero_loop nmini4 ii sumpows = Some r \<and> length r = length sumpows
           \<and> (\<forall>j < length sumpows. r ! j = (if ii \<le> int j \<and> int j < nmini4 then 0 else sumpows ! j))"
  using assms
proof (induction "nat (nmini4 - ii)" arbitrary: ii sumpows)
  case 0
  then have "\<not> ii < nmini4" by simp
  then have "zero_loop nmini4 ii sumpows = Some sumpows"
    by (simp add: zero_loop.simps [of nmini4 ii])
  then show ?case using \<open>\<not> ii < nmini4\<close> by simp
next
  case (Suc d)
  then have lt: "ii < nmini4" by simp
  have w: "wr sumpows ii 0 = Some (sumpows[nat ii := 0])"
    using lt Suc.prems by (simp add: wr_def)
  have step: "zero_loop nmini4 ii sumpows = zero_loop nmini4 (ii + 1) (sumpows[nat ii := 0])"
    by (subst zero_loop.simps) (simp add: lt w)
  have d: "d = nat (nmini4 - (ii + 1))" using Suc.hyps(2) by simp
  have i1: "0 \<le> ii + 1" using Suc.prems(1) by simp
  have l: "nmini4 \<le> int (length (sumpows[nat ii := 0]))" using Suc.prems(2) by simp
  from Suc.hyps(1) [OF d i1 l]
  obtain r where r: "zero_loop nmini4 (ii + 1) (sumpows[nat ii := 0]) = Some r"
    "length r = length sumpows"
    "\<forall>j < length sumpows. r ! j = (if ii + 1 \<le> int j \<and> int j < nmini4 then 0 else sumpows[nat ii := 0] ! j)"
    by auto
  have "\<forall>j < length sumpows. r ! j = (if ii \<le> int j \<and> int j < nmini4 then 0 else sumpows ! j)"
    using r(3) lt Suc.prems by (auto simp: nth_list_update)
  with r(1,2) step show ?case by simp
qed

lemma sum_harmonics_fold:
  assumes "1 \<le> nmini4" "length fullpows = nat nmini4"
  shows "sum_harmonics fullpows nmini4 harmsum
           = Some (harm_sum_spec (\<lambda>h jh. jh) fullpows harmsum nmini4)"
    and "length (harm_sum_spec (\<lambda>h jh. jh) fullpows harmsum nmini4) = nat nmini4"
    and "harm_sum_spec (\<lambda>h jh. jh) fullpows harmsum nmini4 ! 0 = fullpows ! 0"
proof -
  define s0 where "s0 = (gen_fvect nmini4)[0 := fullpows ! 0]"
  define s1 where "s1 = fullpows ! 0 # replicate (nat nmini4 - 1) (0::real)"
  have l0: "length s0 = nat nmini4" by (simp add: s0_def gen_fvect_def)
  have a: "rd fullpows 0 = Some (fullpows ! 0)" "wr (gen_fvect nmini4) 0 (fullpows ! 0) = Some s0"
    using assms by (simp_all add: rd_def wr_def s0_def gen_fvect_def)
  from zero_loop_ok [of 1 nmini4 s0] l0 assms(1)
  obtain r where r: "zero_loop nmini4 1 s0 = Some r" "length r = nat nmini4"
    "\<forall>j < nat nmini4. r ! j = (if 1 \<le> int j \<and> int j < nmini4 then 0 else s0 ! j)"
    by auto
  have "r = s1"
  proof (rule nth_equalityI)
    show "length r = length s1" using r(2) assms(1) by (simp add: s1_def)
  next
    fix j assume "j < length r"
    then have j: "j < nat nmini4" using r(2) by simp
    show "r ! j = s1 ! j"
    proof (cases j)
      case 0
      then show ?thesis using r(3) j assms(1) by (simp add: s1_def s0_def gen_fvect_def)
    next
      case (Suc k)
      then have "1 \<le> int j \<and> int j < nmini4" using j by linarith
      then have "r ! j = 0" using r(3) j by simp
      then show ?thesis using Suc j by (simp add: s1_def)
    qed
  qed
  with r have z: "zero_loop nmini4 1 s0 = Some s1" "length s1 = nat nmini4" by simp_all
  from harm_ii_loop_fold [OF _ assms(2) z(2), of 1 harmsum]
  obtain q where q: "harm_ii_loop fullpows nmini4 harmsum 1 s1 = Some q"
    "q = harm_sum_spec (\<lambda>h jh. jh) fullpows harmsum nmini4"
    "length q = length s1" "q ! 0 = s1 ! 0"
    unfolding harm_sum_spec_def s1_def by auto
  show "sum_harmonics fullpows nmini4 harmsum
           = Some (harm_sum_spec (\<lambda>h jh. jh) fullpows harmsum nmini4)"
    using a z(1) q(1,2) by (simp add: sum_harmonics_def)
  show "length (harm_sum_spec (\<lambda>h jh. jh) fullpows harmsum nmini4) = nat nmini4"
    using q(2,3) z(2) by simp
  show "harm_sum_spec (\<lambda>h jh. jh) fullpows harmsum nmini4 ! 0 = fullpows ! 0"
    using q(2,4) by (simp add: s1_def)
qed


section \<open>Harmonic summing: results\<close>

text \<open>
  C8.  For every harmonic order \<open>ii \<ge> 1\<close>, every group \<open>jj\<close> with
  \<open>1 \<le> jj < nmini4 / ii\<close> and every \<open>kk\<close> in \<open>[0, ii)\<close>, the index
  \<open>jj * ii + kk - ii / 2\<close> written by the accumulation is at least 1 and less than
  \<open>nmini4\<close>.  Accordingly the three nested loops, run on arrays of length \<open>nmini4\<close>,
  complete without any access outside the arrays, and leave bin 0 as it was.
\<close>

theorem harmonic_indices_in_bounds:
  assumes "length fullpows = nat nmini4" "length sumpows = nat nmini4"
  shows "(\<forall>ii jj kk. 1 \<le> ii \<and> ii \<le> harmsum \<and> 1 \<le> jj \<and> jj < nmini4 sdiv ii \<and> 0 \<le> kk \<and> kk < ii
            \<longrightarrow> 1 \<le> jj * ii + kk - ii sdiv 2 \<and> jj * ii + kk - ii sdiv 2 < nmini4)
       \<and> (\<exists>r. harm_ii_loop fullpows nmini4 harmsum 1 sumpows = Some r
              \<and> length r = length sumpows \<and> r ! 0 = sumpows ! 0)"
proof (intro conjI allI impI)
  fix ii jj kk :: int
  assume a: "1 \<le> ii \<and> ii \<le> harmsum \<and> 1 \<le> jj \<and> jj < nmini4 sdiv ii \<and> 0 \<le> kk \<and> kk < ii"
  then show "1 \<le> jj * ii + kk - ii sdiv 2" "jj * ii + kk - ii sdiv 2 < nmini4"
    using harm_index_bounds(1,2) [of ii jj nmini4 kk] by simp_all
next
  from harm_ii_loop_fold [OF _ assms, of 1 harmsum]
  show "\<exists>r. harm_ii_loop fullpows nmini4 harmsum 1 sumpows = Some r
              \<and> length r = length sumpows \<and> r ! 0 = sumpows ! 0"
    by auto
qed

lemmas harm_eval = harm_ii_loop.simps harm_jj_loop.simps harm_kk_loop.simps zero_loop.simps
  sum_harmonics_def gen_fvect_def rd_def wr_def Let_def signed_divide_int_def
  eval_nat_numeral

lemma harm_ii_loop_eval: "harm_ii_loop [1, 2, 3, 2] 4 2 1 [1, 0, 0, 0] = Some [1, 4, 5, 2]"
  by (simp add: harm_eval cong: bind_weak_cong)

theorem harmonic_indices_in_bounds_witness:
  "length [1, 2, 3, 2 :: real] = nat 4 \<and> length [1, 0, 0, 0 :: real] = nat 4
     \<and> harm_ii_loop [1, 2, 3, 2] 4 2 1 [1, 0, 0, 0] = Some [1, 4, 5, 2]
     \<and> (1::int) \<le> 1 * 2 + 1 - 2 sdiv 2 \<and> (1::int) * 2 + 1 - 2 sdiv 2 < 4"
proof -
  have h: "length [1, 2, 3, 2 :: real] = nat 4" "length [1, 0, 0, 0 :: real] = nat 4"
    by simp_all
  have "(1::int) \<le> 2 \<and> (2::int) \<le> 2 \<and> (1::int) \<le> 1 \<and> (1::int) < 4 sdiv 2 \<and> (0::int) \<le> 1 \<and> (1::int) < 2"
    by (simp add: signed_divide_int_def)
  with harmonic_indices_in_bounds [OF h, of 2]
  have "(1::int) \<le> 1 * 2 + 1 - 2 sdiv 2 \<and> (1::int) * 2 + 1 - 2 sdiv 2 < 4"
    by blast
  with h harm_ii_loop_eval show ?thesis by (intro conjI) simp_all
qed

text \<open>
  C1 (as amended).  On an aliased power array of length \<open>4 * numminifft\<close> the summing
  step returns an array of the same length that is the result of the procedure of the
  spec with the source index \<open>jh\<close> (the harmonic group itself) in place of \<open>jh * h\<close>:
  position \<open>jh * h + k - h div 2\<close> is incremented by \<open>fullpows[jh]\<close>.  For
  \<open>harmsum > 1\<close> this array, with \<open>numtosearch = 4 * numminifft\<close>, is what the call
  searches.
\<close>

theorem harmonic_sum_amended:
  assumes "1 \<le> numminifft" "length fullpows = nat (4 * numminifft)"
  shows "sum_harmonics fullpows (4 * numminifft) harmsum
           = Some (harm_sum_spec (\<lambda>h jh. jh) fullpows harmsum (4 * numminifft))
       \<and> length (harm_sum_spec (\<lambda>h jh. jh) fullpows harmsum (4 * numminifft))
           = nat (4 * numminifft)
       \<and> (1 < harmsum
            \<and> wrap_powers spread nyquist (numminifft * 2) (numminifft * 4) = Some fullpows
          \<longrightarrow> summed_powers spread nyquist numminifft harmsum
                = Some (harm_sum_spec (\<lambda>h jh. jh) fullpows harmsum (4 * numminifft),
                        numminifft * 4))"
proof -
  have "1 \<le> 4 * numminifft" using assms(1) by simp
  note sh = sum_harmonics_fold(1,2) [OF this assms(2), of harmsum]
  have c: "numminifft * 4 = 4 * numminifft" by simp
  have "summed_powers spread nyquist numminifft harmsum
          = Some (harm_sum_spec (\<lambda>h jh. jh) fullpows harmsum (4 * numminifft), numminifft * 4)"
    if "1 < harmsum" "wrap_powers spread nyquist (numminifft * 2) (numminifft * 4) = Some fullpows"
    using that sh(1) by (simp add: summed_powers_def Let_def c)
  with sh show ?thesis by blast
qed

lemma sum_harmonics_eval: "sum_harmonics [1, 2, 3, 2] 4 2 = Some [1, 4, 5, 2]"
  by (simp add: harm_eval cong: bind_weak_cong)

lemma harm_sum_spec_eval_code: "harm_sum_spec (\<lambda>h jh. jh) [1, 2, 3, 2] 2 4 = [1, 4, 5, 2]"
  by (simp add: harm_sum_spec_def harm_step_def upto.simps Let_def eval_nat_numeral)

lemma harm_sum_spec_eval_claim: "harm_sum_spec (\<lambda>h jh. jh * h) [1, 2, 3, 2] 2 4 = [1, 5, 6, 2]"
  by (simp add: harm_sum_spec_def harm_step_def upto.simps Let_def eval_nat_numeral)

theorem harmonic_sum_amended_witness:
  "(1::int) \<le> 1 \<and> length [1, 2, 3, 2 :: real] = nat (4 * 1)
     \<and> sum_harmonics [1, 2, 3, 2] (4 * 1) 2 = Some [1, 4, 5, 2]"
proof -
  have h: "(1::int) \<le> 1" "length [1, 2, 3, 2 :: real] = nat (4 * 1)" by simp_all
  from harmonic_sum_amended [OF h, of 2]
  have "sum_harmonics [1, 2, 3, 2] (4 * 1) 2 = Some (harm_sum_spec (\<lambda>h jh. jh) [1, 2, 3, 2] 2 (4 * 1))"
    by blast
  then have "sum_harmonics [1, 2, 3, 2] (4 * 1) 2 = Some [1, 4, 5, 2]"
    using harm_sum_spec_eval_code by simp
  with h show ?thesis by (intro conjI)
qed

text \<open>
  C1 as stated fails: with \<open>numminifft = 1\<close>, two harmonics and the aliased powers
  1, 2, 3, 2 the code returns 1, 4, 5, 2 (harmonic 2 adds \<open>fullpows[1] = 2\<close> to positions
  1 and 2), whereas adding the power at index \<open>jh * h = 2\<close> would give 1, 5, 6, 2.
\<close>

theorem harmonic_sum_counterexample:
  "sum_harmonics [1, 2, 3, 2] 4 2 = Some [1, 4, 5, 2]
     \<and> harm_sum_spec (\<lambda>h jh. jh * h) [1, 2, 3, 2] 2 4 = [1, 5, 6, 2]
     \<and> sum_harmonics [1, 2, 3, 2] 4 2 \<noteq> Some (harm_sum_spec (\<lambda>h jh. jh * h) [1, 2, 3, 2] 2 4)"
  by (simp add: sum_harmonics_eval harm_sum_spec_eval_claim)

section \<open>The power arrays and the whole search: auxiliary results\<close>

lemma wrap_loop_ok:
  assumes "1 \<le> ii" "jj = nmini4 - ii" "nmini4 = 2 * nmini2"
    and "length fullpows = nat nmini4" "nmini2 \<le> int (length spread)"
  shows "\<exists>r. wrap_loop spread nmini2 ii jj fullpows = Some r \<and> length r = length fullpows
    \<and> (\<forall>j < length fullpows. r ! j =
          (if ii \<le> int j \<and> int j < nmini2 then POWER (re (spread ! j)) (im (spread ! j))
           else if nmini2 < int j \<and> int j \<le> nmini4 - ii
             then POWER (re (spread ! nat (nmini4 - int j))) (im (spread ! nat (nmini4 - int j)))
           else fullpows ! j))"
  using assms
proof (induction "nat (nmini2 - ii)" arbitrary: ii jj fullpows)
  case 0
  then have n: "\<not> ii < nmini2" by simp
  then have "wrap_loop spread nmini2 ii jj fullpows = Some fullpows"
    by (simp add: wrap_loop.simps [of _ nmini2 ii])
  moreover have "\<forall>j. \<not> (nmini2 < int j \<and> int j \<le> nmini4 - ii)"
    using n "0.prems"(3) by (intro allI) linarith
  ultimately show ?case using n by auto
next
  case (Suc d)
  then have lt: "ii < nmini2" by simp
  define pw where "pw = POWER (re (spread ! nat ii)) (im (spread ! nat ii))"
  define fp where "fp = fullpows[nat jj := pw, nat ii := pw]"
  have jr: "0 \<le> jj" "jj < nmini4" "nat ii \<noteq> nat jj"
    using lt Suc.prems(1,2,3) by simp_all
  have acc: "rd spread ii = Some (spread ! nat ii)"
      "wr fullpows jj pw = Some (fullpows[nat jj := pw])"
      "wr (fullpows[nat jj := pw]) ii pw = Some fp"
    using lt jr Suc.prems by (simp_all add: rd_def wr_def fp_def)
  have step: "wrap_loop spread nmini2 ii jj fullpows
       = wrap_loop spread nmini2 (ii + 1) (jj - 1) fp"
    by (subst wrap_loop.simps) (simp add: lt acc flip: pw_def)
  have d: "d = nat (nmini2 - (ii + 1))" using Suc.hyps(2) by simp
  have i1: "1 \<le> ii + 1" using Suc.prems(1) by simp
  have j1: "jj - 1 = nmini4 - (ii + 1)" using Suc.prems(2) by simp
  have lfp: "length fp = nat nmini4" using Suc.prems(4) by (simp add: fp_def)
  from Suc.hyps(1) [OF d i1 j1 Suc.prems(3) lfp Suc.prems(5)]
  obtain r where r: "wrap_loop spread nmini2 (ii + 1) (jj - 1) fp = Some r"
    "length r = length fp"
    "\<forall>j < length fp. r ! j =
          (if ii + 1 \<le> int j \<and> int j < nmini2 then POWER (re (spread ! j)) (im (spread ! j))
           else if nmini2 < int j \<and> int j \<le> nmini4 - (ii + 1)
             then POWER (re (spread ! nat (nmini4 - int j))) (im (spread ! nat (nmini4 - int j)))
           else fp ! j)"
    by blast
  have "r ! j =
          (if ii \<le> int j \<and> int j < nmini2 then POWER (re (spread ! j)) (im (spread ! j))
           else if nmini2 < int j \<and> int j \<le> nmini4 - ii
             then POWER (re (spread ! nat (nmini4 - int j))) (im (spread ! nat (nmini4 - int j)))
           else fullpows ! j)" if j: "j < length fullpows" for j
  proof -
    have jl: "j < length fp" using j by (simp add: fp_def)
    note rj = r(3) [rule_format, OF jl]
    consider "int j = ii" | "int j = jj" | "int j \<noteq> ii" "int j \<noteq> jj" by blast
    then show ?thesis
    proof cases
      case 1
      then have "fp ! j = pw" "j = nat ii" using j by (auto simp: fp_def)
      with 1 rj lt Suc.prems(1,2,3) show ?thesis by (simp add: pw_def)
    next
      case 2
      then have "fp ! j = pw" "j = nat jj" using j jr by (auto simp: fp_def)
      moreover have "nat (nmini4 - int j) = nat ii" using 2 Suc.prems(2) by simp
      ultimately show ?thesis using 2 rj lt Suc.prems(1,2,3) by (simp add: pw_def)
    next
      case 3
      then have "j \<noteq> nat ii" "j \<noteq> nat jj" using Suc.prems(1) jr(1) by auto
      then have "fp ! j = fullpows ! j" by (simp add: fp_def)
      with 3 rj Suc.prems(2) show ?thesis by auto
    qed
  qed
  with r(1,2) step lfp Suc.prems(4) show ?case by simp
qed

lemma wrap_powers_ok:
  assumes "1 \<le> numminifft" "2 * numminifft \<le> int (length spread)"
  shows "\<exists>fp. wrap_powers spread nyquist (numminifft * 2) (numminifft * 4) = Some fp
    \<and> length fp = nat (numminifft * 4)
    \<and> fp ! 0 = 1 \<and> fp ! nat (2 * numminifft) = nyquist * nyquist
    \<and> (\<forall>i. 0 < i \<and> i < 2 * numminifft \<longrightarrow>
           fp ! nat i = POWER (re (spread ! nat i)) (im (spread ! nat i))
         \<and> fp ! nat (4 * numminifft - i) = POWER (re (spread ! nat i)) (im (spread ! nat i)))"
proof -
  define nmini2 where "nmini2 = numminifft * 2"
  define nmini4 where "nmini4 = numminifft * 4"
  define f0 where "f0 = (gen_fvect nmini4)[0 := 1]"
  define f1 where "f1 = f0[nat nmini2 := nyquist * nyquist]"
  have n: "nmini4 = 2 * nmini2" "2 \<le> nmini2" "nmini2 < nmini4"
    using assms(1) by (simp_all add: nmini2_def nmini4_def)
  have l: "length f0 = nat nmini4" "length f1 = nat nmini4"
    by (simp_all add: f0_def f1_def gen_fvect_def)
  have w: "wr (gen_fvect nmini4) 0 1 = Some f0" "wr f0 nmini2 (nyquist * nyquist) = Some f1"
    using n l by (simp_all add: wr_def f0_def f1_def gen_fvect_def)
  have sl: "nmini2 \<le> int (length spread)" using assms(2) by (simp add: nmini2_def)
  from wrap_loop_ok [OF _ _ n(1) l(2) sl, of 1 "nmini4 - 1"]
  obtain r where r: "wrap_loop spread nmini2 1 (nmini4 - 1) f1 = Some r" "length r = nat nmini4"
    and c: "\<forall>j < nat nmini4. r ! j =
          (if 1 \<le> int j \<and> int j < nmini2 then POWER (re (spread ! j)) (im (spread ! j))
           else if nmini2 < int j \<and> int j \<le> nmini4 - 1
             then POWER (re (spread ! nat (nmini4 - int j))) (im (spread ! nat (nmini4 - int j)))
           else f1 ! j)"
    using l by auto
  have e: "wrap_powers spread nyquist nmini2 nmini4 = Some r"
    by (simp add: wrap_powers_def w r(1))
  have r0: "r ! 0 = 1"
    using c [rule_format, of 0] n by (simp add: f1_def f0_def gen_fvect_def)
  have rn: "r ! nat nmini2 = nyquist * nyquist"
    using c [rule_format, of "nat nmini2"] n l by (simp add: f1_def)
  have ri: "r ! nat i = POWER (re (spread ! nat i)) (im (spread ! nat i))
         \<and> r ! nat (nmini4 - i) = POWER (re (spread ! nat i)) (im (spread ! nat i))"
    if "0 < i \<and> i < nmini2" for i
  proof
    show "r ! nat i = POWER (re (spread ! nat i)) (im (spread ! nat i))"
      using c [rule_format, of "nat i"] that n by simp
    have "nat (nmini4 - int (nat (nmini4 - i))) = nat i" using that n by simp
    then show "r ! nat (nmini4 - i) = POWER (re (spread ! nat i)) (im (spread ! nat i))"
      using c [rule_format, of "nat (nmini4 - i)"] that n by simp
  qed
  show ?thesis
    using e r(2) r0 rn ri
    unfolding nmini2_def nmini4_def by (simp add: mult.commute)
qed


lemma power_loop_ok:
  assumes "1 \<le> ii" "nmini2 \<le> int (length spread)" "nmini2 \<le> int (length sumpows)"
  shows "\<exists>r. power_loop spread nmini2 ii sumpows = Some r \<and> length r = length sumpows
    \<and> (\<forall>j < length sumpows. r ! j =
          (if ii \<le> int j \<and> int j < nmini2 then POWER (re (spread ! j)) (im (spread ! j))
           else sumpows ! j))"
  using assms
proof (induction "nat (nmini2 - ii)" arbitrary: ii sumpows)
  case 0
  then have n: "\<not> ii < nmini2" by simp
  then have "power_loop spread nmini2 ii sumpows = Some sumpows"
    by (simp add: power_loop.simps [of _ nmini2 ii])
  then show ?case using n by auto
next
  case (Suc d)
  then have lt: "ii < nmini2" by simp
  define pw where "pw = POWER (re (spread ! nat ii)) (im (spread ! nat ii))"
  define sp where "sp = sumpows[nat ii := pw]"
  have acc: "rd spread ii = Some (spread ! nat ii)" "wr sumpows ii pw = Some sp"
    using lt Suc.prems by (simp_all add: rd_def wr_def sp_def)
  have step: "power_loop spread nmini2 ii sumpows = power_loop spread nmini2 (ii + 1) sp"
    by (subst power_loop.simps) (simp add: lt acc flip: pw_def)
  have d: "d = nat (nmini2 - (ii + 1))" using Suc.hyps(2) by simp
  have i1: "1 \<le> ii + 1" using Suc.prems(1) by simp
  have lsp: "nmini2 \<le> int (length sp)" using Suc.prems(3) by (simp add: sp_def)
  from Suc.hyps(1) [OF d i1 Suc.prems(2) lsp]
  obtain r where r: "power_loop spread nmini2 (ii + 1) sp = Some r" "length r = length sp"
    "\<forall>j < length sp. r ! j =
          (if ii + 1 \<le> int j \<and> int j < nmini2 then POWER (re (spread ! j)) (im (spread ! j))
           else sp ! j)"
    by blast
  have "r ! j = (if ii \<le> int j \<and> int j < nmini2 then POWER (re (spread ! j)) (im (spread ! j))
           else sumpows ! j)" if j: "j < length sumpows" for j
  proof (cases "int j = ii")
    case True
    then have "sp ! j = pw" "j = nat ii" using j by (auto simp: sp_def)
    with True r(3) j lt show ?thesis by (simp add: pw_def sp_def)
  next
    case False
    then have "j \<noteq> nat ii" using Suc.prems(1) by auto
    then have "sp ! j = sumpows ! j" by (simp add: sp_def)
    with False r(3) j show ?thesis by (auto simp: sp_def)
  qed
  with r(1,2) step show ?case by (simp add: sp_def)
qed

lemma plain_powers_ok:
  assumes "1 \<le> numminifft" "2 * numminifft \<le> int (length spread)"
  shows "\<exists>sp. plain_powers spread nyquist (numminifft * 2) = Some sp
    \<and> int (length sp) = 2 * numminifft + 1
    \<and> sp ! 0 = 1 \<and> sp ! nat (2 * numminifft) = nyquist * nyquist
    \<and> (\<forall>i. 0 < i \<and> i < 2 * numminifft \<longrightarrow>
           sp ! nat i = POWER (re (spread ! nat i)) (im (spread ! nat i)))"
proof -
  define nmini2 where "nmini2 = numminifft * 2"
  define s0 where "s0 = (gen_fvect (nmini2 + 1))[0 := 1]"
  define s1 where "s1 = s0[nat nmini2 := nyquist * nyquist]"
  have n: "2 \<le> nmini2" using assms(1) by (simp add: nmini2_def)
  have l: "length s0 = nat (nmini2 + 1)" "length s1 = nat (nmini2 + 1)"
    by (simp_all add: s0_def s1_def gen_fvect_def)
  have w: "wr (gen_fvect (nmini2 + 1)) 0 1 = Some s0" "wr s0 nmini2 (nyquist * nyquist) = Some s1"
    using n l by (simp_all add: wr_def s0_def s1_def gen_fvect_def)
  have sl: "nmini2 \<le> int (length spread)" using assms(2) by (simp add: nmini2_def)
  have l1: "nmini2 \<le> int (length s1)" using l n by simp
  from power_loop_ok [OF _ sl l1, of 1]
  obtain r where r: "power_loop spread nmini2 1 s1 = Some r" "length r = nat (nmini2 + 1)"
    and c: "\<forall>j < nat (nmini2 + 1). r ! j =
          (if 1 \<le> int j \<and> int j < nmini2 then POWER (re (spread ! j)) (im (spread ! j))
           else s1 ! j)"
    using l by auto
  have e: "plain_powers spread nyquist nmini2 = Some r"
    by (simp add: plain_powers_def w r(1))
  have r0: "r ! 0 = 1"
    using c [rule_format, of 0] n by (simp add: s1_def s0_def gen_fvect_def)
  have rn: "r ! nat nmini2 = nyquist * nyquist"
    using c [rule_format, of "nat nmini2"] n l by (simp add: s1_def)
  have ri: "r ! nat i = POWER (re (spread ! nat i)) (im (spread ! nat i))"
    if "0 < i \<and> i < nmini2" for i
    using c [rule_format, of "nat i"] that n by simp
  have "int (length r) = nmini2 + 1" using r(2) n by simp
  then show ?thesis
    using e r0 rn ri unfolding nmini2_def by (simp add: mult.commute)
qed

lemma normalize_loop_ok:
  assumes "0 \<le> ii" "ii \<le> nmini2" "even (nmini2 - ii)" "nmini2 \<le> int (length spread)"
  shows "\<exists>sp. normalize_loop sqrtnorm nmini2 ii spread = Some (nmini2, sp)
           \<and> length sp = length spread"
  using assms
proof (induction "nat (nmini2 - ii)" arbitrary: ii spread rule: less_induct)
  case less
  show ?case
  proof (cases "ii < nmini2")
    case False
    then have "ii = nmini2" using less.prems(2) by simp
    then show ?thesis by (simp add: normalize_loop.simps [of _ nmini2 nmini2])
  next
    case True
    define c where "c = spread ! nat ii"
    define sp where "sp = spread[nat ii := c\<lparr>re := re c * sqrtnorm, im := im c * sqrtnorm\<rparr>]"
    have acc: "rd spread ii = Some c"
        "wr spread ii (c\<lparr>re := re c * sqrtnorm, im := im c * sqrtnorm\<rparr>) = Some sp"
      using True less.prems by (simp_all add: rd_def wr_def sp_def c_def)
    have step: "normalize_loop sqrtnorm nmini2 ii spread = normalize_loop sqrtnorm nmini2 (ii + 2) sp"
      by (subst normalize_loop.simps) (simp add: True acc)
    have "nmini2 - ii \<noteq> 1" using less.prems(3) by (metis odd_one)
    then have le: "ii + 2 \<le> nmini2" using True by simp
    have m: "nat (nmini2 - (ii + 2)) < nat (nmini2 - ii)" using True by simp
    have i2: "0 \<le> ii + 2" using less.prems(1) by simp
    have ev: "even (nmini2 - (ii + 2))" using less.prems(3) by simp
    have lsp: "nmini2 \<le> int (length sp)" using less.prems(4) by (simp add: sp_def)
    from less.hyps [OF m i2 le ev lsp]
    obtain r where "normalize_loop sqrtnorm nmini2 (ii + 2) sp = Some (nmini2, r)"
      "length r = length sp"
      by blast
    with step show ?thesis by (simp add: sp_def)
  qed
qed

lemma spread_no_pad_ok:
  assumes "numdata \<le> int (length data)" "numresult \<le> int (length result)" "1 \<le> numdata"
    "1 \<le> numresult"
  shows "\<exists>r. spread_no_pad data numdata result numresult 2 = Some r
           \<and> length r = length result \<and> r ! 0 = data ! 0"
proof -
  define f where "f = (\<lambda>jj::int. if jj mod 2 = 0 \<and> jj div 2 < numdata
                            then data ! nat (jj div 2) else czero)"
  define r where "r = map f [0..numresult - 1] @ drop (nat numresult) result"
  have e: "spread_no_pad data numdata result numresult 2 = Some r"
    using assms(1,2) by (simp add: spread_no_pad_def r_def f_def)
  have lm: "length (map f [0..numresult - 1]) = nat numresult"
    using assms(4) by simp
  have l: "length r = length result"
    using assms(2,4) lm by (simp add: r_def)
  have "[0..numresult - 1] ! 0 = 0"
    using assms(4) by (simp add: upto_rec1)
  then have "map f [0..numresult - 1] ! 0 = f 0"
    using lm assms(4) by (simp add: nth_map)
  then have "r ! 0 = f 0"
    using lm assms(4) by (simp add: r_def nth_append)
  then have "r ! 0 = data ! 0" using assms(3) by (simp add: f_def)
  with e l show ?thesis by blast
qed

lemma spread_normalize_interpolate_ok:
  assumes "1 \<le> numminifft" "numminifft \<le> int (length minifft)" "2 * numminifft < numspread"
  shows "\<exists>spread3. spread_normalize_interpolate X kern minifft numminifft nrm numspread
           = Some (im (minifft ! 0) * sqrt nrm, complex_corr_conv X spread3 kern numspread)
         \<and> length spread3 = nat numspread"
proof -
  have ns: "1 \<le> numspread" using assms(1,3) by simp
  have lg: "numspread \<le> int (length (gen_cvect numspread))"
    by (simp add: gen_cvect_def)
  from spread_no_pad_ok [OF assms(2) lg assms(1) ns]
  obtain s0 where s0: "spread_no_pad minifft numminifft (gen_cvect numspread) numspread 2 = Some s0"
    "length s0 = nat numspread" "s0 ! 0 = minifft ! 0"
    by (auto simp: gen_cvect_def)
  define s1 where "s1 = s0[0 := \<lparr>re = 1, im = 0\<rparr>]"
  have a: "rd s0 0 = Some (minifft ! 0)" "wr s0 0 \<lparr>re = 1, im = 0\<rparr> = Some s1"
    using s0 ns by (simp_all add: rd_def wr_def s1_def)
  have l1: "numminifft * 2 \<le> int (length s1)" using s0(2) assms(3) by (simp add: s1_def)
  have "even (numminifft * 2 - 2)" by simp
  from normalize_loop_ok [OF _ _ this l1, of "sqrt nrm"] assms(1)
  obtain s2 where s2: "normalize_loop (sqrt nrm) (numminifft * 2) 2 s1 = Some (numminifft * 2, s2)"
    "length s2 = length s1"
    by auto
  define s3 where "s3 = s2[nat (numminifft * 2) := \<lparr>re = im (minifft ! 0) * sqrt nrm, im = 0\<rparr>]"
  have l2: "length s2 = nat numspread" using s2(2) s0(2) by (simp add: s1_def)
  have w3: "wr s2 (numminifft * 2) \<lparr>re = im (minifft ! 0) * sqrt nrm, im = 0\<rparr> = Some s3"
    using l2 assms(1,3) by (simp add: wr_def s3_def)
  have "spread_normalize_interpolate X kern minifft numminifft nrm numspread
           = Some (im (minifft ! 0) * sqrt nrm, complex_corr_conv X s3 kern numspread)"
    by (simp add: spread_normalize_interpolate_def s0(1) a s2(1) w3 Let_def)
  moreover have "length s3 = nat numspread" using l2 by (simp add: s3_def)
  ultimately show ?thesis by blast
qed

lemma summed_powers_ok:
  assumes "1 \<le> numminifft" "2 * numminifft \<le> int (length spread)"
  shows "\<exists>sumpows. summed_powers spread nyquist numminifft harmsum
             = Some (sumpows, if harmsum > 1 then numminifft * 4 else numminifft * 2 + 1)
           \<and> int (length sumpows) = (if harmsum > 1 then numminifft * 4 else numminifft * 2 + 1)"
proof (cases "harmsum > 1")
  case True
  from wrap_powers_ok [OF assms, of nyquist]
  obtain fp where fp: "wrap_powers spread nyquist (numminifft * 2) (numminifft * 4) = Some fp"
    "length fp = nat (numminifft * 4)"
    by blast
  have n4: "1 \<le> numminifft * 4" using assms(1) by simp
  note sh = sum_harmonics_fold [OF n4 fp(2), of harmsum]
  have "summed_powers spread nyquist numminifft harmsum
      = Some (harm_sum_spec (\<lambda>h jh. jh) fp harmsum (numminifft * 4), numminifft * 4)"
    by (simp add: summed_powers_def Let_def True fp(1) sh(1))
  moreover have "int (length (harm_sum_spec (\<lambda>h jh. jh) fp harmsum (numminifft * 4))) = numminifft * 4"
    using sh(2) n4 by simp
  ultimately show ?thesis using True by simp
next
  case False
  from plain_powers_ok [OF assms, of nyquist]
  obtain sp where sp: "plain_powers spread nyquist (numminifft * 2) = Some sp"
    "int (length sp) = 2 * numminifft + 1"
    by blast
  have "summed_powers spread nyquist numminifft harmsum = Some (sp, numminifft * 2 + 1)"
    by (simp add: summed_powers_def Let_def False sp(1))
  then show ?thesis using False sp(2) by simp
qed

lemma pick_len_ge: "n \<le> pick_len n"
proof (cases "1050000 < n")
  case True
  have "(n + 1000) div 1000 = n div 1000 + 1" by simp
  moreover have "(n div 1000) * 1000 + n mod 1000 = n" by simp
  moreover have "n mod 1000 < 1000" by simp
  ultimately have "n < ((n + 1000) div 1000) * 1000" by (simp add: algebra_simps)
  with True show ?thesis by (simp add: pick_len_large)
next
  case False
  then show ?thesis by (simp add: pick_len_def)
qed

lemma padfftlen_room:
  assumes "8 \<le> numminifft" "1 \<le> lowaccbins"
  shows "2 * numminifft < fst (padfftlen lowaccbins numminifft 2)"
proof -
  have "1 \<le> min (numminifft div 8) lowaccbins" using assms by simp
  then have "2 * numminifft < (numminifft + min (numminifft div 8) lowaccbins) * 2" by simp
  also have "\<dots> \<le> pick_len ((numminifft + min (numminifft div 8) lowaccbins) * 2)"
    by (rule pick_len_ge)
  finally show ?thesis
    using assms(1) by (simp add: padfftlen_unfold)
qed

lemma search_minifft_ok:
  assumes "1 \<le> numminifft" "numminifft \<le> int (length minifft)"
    and "2 * numminifft < fst (padfftlen (r_resp_halfwidth_LOWACC X) numminifft 2)"
    and "corr_keeps_length X"
    and "int (length highpows) = numcands" "int (length highfreqs) = numcands" "1 \<le> numcands"
  shows "\<exists>nyquist spread sumpows numtosearch hp hf.
      spread_normalize_interpolate X
          (kernel (prep_kernel X st numminifft (fst (padfftlen (r_resp_halfwidth_LOWACC X) numminifft 2))
                      (snd (padfftlen (r_resp_halfwidth_LOWACC X) numminifft 2))))
          minifft numminifft nrm (fst (padfftlen (r_resp_halfwidth_LOWACC X) numminifft 2))
        = Some (nyquist, spread)
    \<and> nyquist = im (minifft ! 0) * sqrt nrm
    \<and> 2 * numminifft \<le> int (length spread)
    \<and> summed_powers spread nyquist numminifft harmsum = Some (sumpows, numtosearch)
    \<and> int (length sumpows) = numtosearch
    \<and> search_summed_powers sumpows numtosearch numcands highpows highfreqs = Some (hp, hf)
    \<and> search_minifft X st minifft numminifft nrm harmsum numcands highpows highfreqs
        = Some (prep_kernel X st numminifft (fst (padfftlen (r_resp_halfwidth_LOWACC X) numminifft 2))
                      (snd (padfftlen (r_resp_halfwidth_LOWACC X) numminifft 2)), hp, hf)"
proof -
  define numspread where "numspread = fst (padfftlen (r_resp_halfwidth_LOWACC X) numminifft 2)"
  define khw where "khw = snd (padfftlen (r_resp_halfwidth_LOWACC X) numminifft 2)"
  define st' where "st' = prep_kernel X st numminifft numspread khw"
  have pf: "padfftlen (r_resp_halfwidth_LOWACC X) numminifft 2 = (numspread, khw)"
    by (simp add: numspread_def khw_def)
  have room: "2 * numminifft < numspread" using assms(3) by (simp add: numspread_def)
  from spread_normalize_interpolate_ok [OF assms(1,2) room, of X "kernel st'" nrm]
  obtain s3 where s3: "spread_normalize_interpolate X (kernel st') minifft numminifft nrm numspread
           = Some (im (minifft ! 0) * sqrt nrm, complex_corr_conv X s3 (kernel st') numspread)"
    "length s3 = nat numspread"
    by blast
  define spread where "spread = complex_corr_conv X s3 (kernel st') numspread"
  define nyquist where "nyquist = im (minifft ! 0) * sqrt nrm"
  have "length spread = nat numspread"
    using assms(4) s3(2) by (simp add: corr_keeps_length_def spread_def)
  then have ls: "2 * numminifft \<le> int (length spread)" using room by simp
  from summed_powers_ok [OF assms(1) ls, of nyquist harmsum]
  obtain sumpows numtosearch where sp:
    "summed_powers spread nyquist numminifft harmsum = Some (sumpows, numtosearch)"
    "int (length sumpows) = numtosearch"
    by blast
  define n where "n = length highpows"
  note v = vector_lengths [OF assms(5,6,7), folded n_def]
  have nts: "numtosearch \<le> int (length sumpows)" using sp(2) by simp
  from search_summed_powers_ok [OF n_def [symmetric] v nts]
  obtain hp hf where r: "search_summed_powers sumpows numtosearch numcands highpows highfreqs = Some (hp, hf)"
    by blast
  have sni: "spread_normalize_interpolate X (kernel st') minifft numminifft nrm numspread
           = Some (nyquist, spread)"
    using s3(1) by (simp add: spread_def nyquist_def)
  have "search_minifft X st minifft numminifft nrm harmsum numcands highpows highfreqs
        = (let stn = prep_kernel X st numminifft numspread khw
           in do { (nyquist, spread) \<leftarrow>
                      spread_normalize_interpolate X (kernel stn) minifft numminifft nrm numspread;
                   (sumpows, numtosearch) \<leftarrow> summed_powers spread nyquist numminifft harmsum;
                   (highpows', highfreqs') \<leftarrow>
                      search_summed_powers sumpows numtosearch numcands highpows highfreqs;
                   Some (stn, highpows', highfreqs') })"
    unfolding search_minifft_def pf by simp
  also have "\<dots> = Some (st', hp, hf)"
    unfolding st'_def [symmetric] Let_def sni by (simp add: sp(1) r)
  finally have sm: "search_minifft X st minifft numminifft nrm harmsum numcands highpows highfreqs
        = Some (st', hp, hf)" .
  show ?thesis
    unfolding numspread_def [symmetric] khw_def [symmetric] st'_def [symmetric]
    using sni nyquist_def ls sp r sm
    by (intro exI [of _ nyquist] exI [of _ spread] exI [of _ sumpows] exI [of _ numtosearch]
          exI [of _ hp] exI [of _ hf] conjI)
qed

lemma statics_after_eq:
  "statics_after X st numminifft
     = prep_kernel X st numminifft (fst (padfftlen (r_resp_halfwidth_LOWACC X) numminifft 2))
         (snd (padfftlen (r_resp_halfwidth_LOWACC X) numminifft 2))"
  by (simp add: statics_after_def split_beta)

lemma search_minifft_total:
  assumes "8 \<le> numminifft" "1 \<le> r_resp_halfwidth_LOWACC X"
    and "numminifft \<le> int (length minifft)" "corr_keeps_length X"
    and "int (length highpows) = numcands" "int (length highfreqs) = numcands" "1 \<le> numcands"
  shows "\<exists>nyquist spread sumpows numtosearch hp hf.
      spread_normalize_interpolate X (kernel (statics_after X st numminifft))
          minifft numminifft nrm (fst (padfftlen (r_resp_halfwidth_LOWACC X) numminifft 2))
        = Some (nyquist, spread)
    \<and> nyquist = im (minifft ! 0) * sqrt nrm
    \<and> 2 * numminifft \<le> int (length spread)
    \<and> summed_powers spread nyquist numminifft harmsum = Some (sumpows, numtosearch)
    \<and> int (length sumpows) = numtosearch
    \<and> search_summed_powers sumpows numtosearch numcands highpows highfreqs = Some (hp, hf)
    \<and> search_minifft X st minifft numminifft nrm harmsum numcands highpows highfreqs
        = Some (statics_after X st numminifft, hp, hf)"
proof -
  have n1: "1 \<le> numminifft" using assms(1) by simp
  note room = padfftlen_room [OF assms(1,2)]
  show ?thesis
    unfolding statics_after_eq
    by (rule search_minifft_ok [OF n1 assms(3) room assms(4-7)])
qed

section \<open>The whole search: results\<close>

text \<open>
  C4.  Take a call with \<open>harmsum = 1\<close> whose arguments allow every buffer access
  (\<open>numminifft \<ge> 8\<close>, half-width at least 1, at least \<open>numminifft\<close> input samples,
  vectors of length \<open>numcands \<ge> 1\<close>) and \<open>norm \<ge> 0\<close>.  The array that is searched has
  length exactly \<open>2 * numminifft + 1\<close>; its bin 0 holds 1, and its bin \<open>2 * numminifft\<close>
  holds \<open>(nyquist * sqrt norm)\<^sup>2\<close>, where \<open>nyquist\<close> is the imaginary part of input bin 0.
\<close>

theorem plain_power_array:
  assumes "8 \<le> numminifft" "1 \<le> r_resp_halfwidth_LOWACC X"
    and "numminifft \<le> int (length minifft)" "corr_keeps_length X"
    and "int (length highpows) = numcands" "int (length highfreqs) = numcands" "1 \<le> numcands"
    and "0 \<le> nrm"
  shows "\<exists>nyquist spread sumpows hp hf.
      spread_normalize_interpolate X (kernel (statics_after X st numminifft))
          minifft numminifft nrm (fst (padfftlen (r_resp_halfwidth_LOWACC X) numminifft 2))
        = Some (nyquist, spread)
    \<and> summed_powers spread nyquist numminifft 1 = Some (sumpows, 2 * numminifft + 1)
    \<and> int (length sumpows) = 2 * numminifft + 1
    \<and> sumpows ! 0 = 1
    \<and> sumpows ! nat (2 * numminifft) = (im (minifft ! 0) * sqrt nrm)\<^sup>2
    \<and> search_summed_powers sumpows (2 * numminifft + 1) numcands highpows highfreqs
        = Some (hp, hf)
    \<and> search_minifft X st minifft numminifft nrm 1 numcands highpows highfreqs
        = Some (statics_after X st numminifft, hp, hf)"
proof -
  from search_minifft_total [OF assms(1-7), of st nrm 1]
  obtain nyquist spread sumpows numtosearch hp hf where
    a: "spread_normalize_interpolate X (kernel (statics_after X st numminifft))
          minifft numminifft nrm (fst (padfftlen (r_resp_halfwidth_LOWACC X) numminifft 2))
        = Some (nyquist, spread)"
    and ny: "nyquist = im (minifft ! 0) * sqrt nrm"
    and ls: "2 * numminifft \<le> int (length spread)"
    and sp: "summed_powers spread nyquist numminifft 1 = Some (sumpows, numtosearch)"
    and r: "search_summed_powers sumpows numtosearch numcands highpows highfreqs = Some (hp, hf)"
    and sm: "search_minifft X st minifft numminifft nrm 1 numcands highpows highfreqs
        = Some (statics_after X st numminifft, hp, hf)"
    by blast
  have n1: "1 \<le> numminifft" using assms(1) by simp
  from plain_powers_ok [OF n1 ls, of nyquist]
  obtain pp where pp: "plain_powers spread nyquist (numminifft * 2) = Some pp"
    "int (length pp) = 2 * numminifft + 1" "pp ! 0 = 1"
    "pp ! nat (2 * numminifft) = nyquist * nyquist"
    by blast
  have "summed_powers spread nyquist numminifft 1 = Some (pp, numminifft * 2 + 1)"
    by (simp add: summed_powers_def Let_def pp(1))
  with sp have e: "sumpows = pp" "numtosearch = 2 * numminifft + 1" by simp_all
  have "pp ! nat (2 * numminifft) = (im (minifft ! 0) * sqrt nrm)\<^sup>2"
    using pp(4) ny by (simp add: power2_eq_square)
  with a sp r sm pp(2,3) e show ?thesis by blast
qed

text \<open>
  C6.  For \<open>harmsum > 1\<close> and \<open>numminifft \<ge> 1\<close> the aliased power array that is built
  before the summation (and then summed) has length \<open>4 * numminifft\<close>, holds 1 at index 0
  and \<open>nyquist\<^sup>2\<close> at index \<open>2 * numminifft\<close>, and is symmetric about that index: the
  powers at \<open>i\<close> and at \<open>4 * numminifft - i\<close> are equal for \<open>0 < i < 2 * numminifft\<close>.
\<close>

theorem aliased_powers_symmetric:
  assumes "1 \<le> numminifft" "2 * numminifft \<le> int (length spread)" "1 < harmsum"
  shows "\<exists>fullpows sumpows.
      wrap_powers spread nyquist (numminifft * 2) (numminifft * 4) = Some fullpows
    \<and> int (length fullpows) = 4 * numminifft
    \<and> fullpows ! 0 = 1
    \<and> fullpows ! nat (2 * numminifft) = nyquist * nyquist
    \<and> (\<forall>i. 0 < i \<and> i < 2 * numminifft
           \<longrightarrow> fullpows ! nat i = fullpows ! nat (4 * numminifft - i))
    \<and> sum_harmonics fullpows (numminifft * 4) harmsum = Some sumpows
    \<and> summed_powers spread nyquist numminifft harmsum = Some (sumpows, numminifft * 4)"
proof -
  from wrap_powers_ok [OF assms(1,2), of nyquist]
  obtain fp where fp: "wrap_powers spread nyquist (numminifft * 2) (numminifft * 4) = Some fp"
    "length fp = nat (numminifft * 4)" "fp ! 0 = 1"
    "fp ! nat (2 * numminifft) = nyquist * nyquist"
    and c: "\<forall>i. 0 < i \<and> i < 2 * numminifft \<longrightarrow>
           fp ! nat i = POWER (re (spread ! nat i)) (im (spread ! nat i))
         \<and> fp ! nat (4 * numminifft - i) = POWER (re (spread ! nat i)) (im (spread ! nat i))"
    by blast
  have n4: "1 \<le> numminifft * 4" using assms(1) by simp
  note sh = sum_harmonics_fold(1) [OF n4 fp(2), of harmsum]
  have sp: "summed_powers spread nyquist numminifft harmsum
      = Some (harm_sum_spec (\<lambda>h jh. jh) fp harmsum (numminifft * 4), numminifft * 4)"
    using assms(3) by (simp add: summed_powers_def Let_def fp(1) sh)
  have l: "int (length fp) = 4 * numminifft" using fp(2) n4 by simp
  have s: "\<forall>i. 0 < i \<and> i < 2 * numminifft \<longrightarrow> fp ! nat i = fp ! nat (4 * numminifft - i)"
    using c by simp
  from fp(1) l fp(3,4) s sh sp show ?thesis by blast
qed


lemma X0_sel [simp]:
  "r_resp_halfwidth_LOWACC X0 = 16"
  "gen_r_response X0 = (\<lambda>roffset numbetween numkern. replicate (nat numkern) czero)"
  "place_complex_kernel X0 = (\<lambda>kern numkern result numresult. result)"
  "COMPLEXFFT X0 = (\<lambda>data n isign. data)"
  "complex_corr_conv X0 = (\<lambda>data kern numdata. data)"
  by (simp_all add: X0_def)

lemma corr_keeps_length_X0: "corr_keeps_length X0"
  by (simp add: corr_keeps_length_def)

lemma padfftlen_eval: "padfftlen 16 8 2 = (18, 1)"
  by (simp add: padfftlen_def Let_def signed_divide_int_def)

lemma statics_after_eval:
  "statics_after X0 initial_statics 8
     = \<lparr>firsttime = 0, old_numminifft = 8, kernel = replicate 18 czero\<rparr>"
  by (simp add: statics_after_def padfftlen_eval prep_kernel_def initial_statics_def
      gen_cvect_def Let_def)

lemma spread_eval:
  "spread_normalize_interpolate X0 kern mf0 8 1 18
     = Some (2, [\<lparr>re = 1, im = 0\<rparr>, czero, czero, czero, \<lparr>re = 3, im = 4\<rparr>, czero, czero, czero,
                 czero, czero, czero, czero, czero, czero, czero, czero,
                 \<lparr>re = 2, im = 0\<rparr>, czero])"
  by (simp add: spread_normalize_interpolate_def spread_no_pad_def gen_cvect_def mf0_def
      upto.simps normalize_loop.simps rd_def wr_def Let_def czero_def eval_nat_numeral
      cong: bind_weak_cong)


lemma summed_powers_eval:
  "harmsum \<le> 1 \<Longrightarrow> summed_powers spread0 2 8 harmsum
     = Some ([1, 0, 0, 0, 25, 0, 0, 0, 0, 0, 0, 0, 0, 0, 0, 0, 4], 17)"
  by (simp add: summed_powers_def plain_powers_def gen_fvect_def spread0_def
      power_loop.simps rd_def wr_def Let_def czero_def POWER_def eval_nat_numeral
      cong: bind_weak_cong)

lemma search_eval_17:
  "search_summed_powers [1, 0, 0, 0, 25, 0, 0, 0, 0, 0, 0, 0, 0, 0, 0, 0, 4] 17 2 [9, 9] [9, 9]
     = Some ([25, 4], [2, 8])"
  by (simp add: tracker_eval cong: bind_weak_cong)

lemma search_minifft_eval:
  assumes "harmsum \<le> 1"
  shows "search_minifft X0 initial_statics mf0 8 1 harmsum 2 [9, 9] [9, 9]
     = Some (\<lparr>firsttime = 0, old_numminifft = 8, kernel = replicate 18 czero\<rparr>, [25, 4], [2, 8])"
proof -
  have p: "prep_kernel X0 initial_statics 8 18 1
      = \<lparr>firsttime = 0, old_numminifft = 8, kernel = replicate 18 czero\<rparr>"
    using statics_after_eval by (simp add: statics_after_def padfftlen_eval)
  show ?thesis
    unfolding search_minifft_def X0_sel padfftlen_eval
    by (simp add: p spread_eval summed_powers_eval [OF assms, unfolded spread0_def] search_eval_17)
qed

text \<open>
  Why the statements about a whole call ask for \<open>numminifft \<ge> 8\<close>: below 8 the padding
  length \<open>numminifft / 8\<close> is 0, \<^verbatim>\<open>padfftlen\<close> returns \<open>2 * numminifft\<close>, and line 70 writes
  \<^verbatim>\<open>spread[nmini2]\<close>, one slot past the end of the buffer.
\<close>

lemma padfftlen_eval4: "padfftlen 16 4 2 = (8, 0)"
  by (simp add: padfftlen_def Let_def signed_divide_int_def)

lemma spread_short:
  "spread_normalize_interpolate X0 kern (replicate 4 czero) 4 1 8 = None"
  by (simp add: spread_normalize_interpolate_def spread_no_pad_def gen_cvect_def
      upto.simps normalize_loop.simps rd_def wr_def Let_def czero_def eval_nat_numeral
      cong: bind_weak_cong)

lemma search_minifft_short_input:
  "search_minifft X0 initial_statics (replicate 4 czero) 4 1 1 2 [9, 9] [9, 9] = None"
  unfolding search_minifft_def X0_sel padfftlen_eval4
  by (simp add: spread_short)

lemma wrap_powers_eval:
  "wrap_powers [czero, \<lparr>re = 3, im = 4\<rparr>] 2 (1 * 2) (1 * 4) = Some [1, 25, 4, 25]"
  by (simp add: wrap_powers_def gen_fvect_def wrap_loop.simps rd_def wr_def POWER_def
      eval_nat_numeral cong: bind_weak_cong)


theorem plain_power_array_witness:
  "(8::int) \<le> 8 \<and> 1 \<le> r_resp_halfwidth_LOWACC X0 \<and> 8 \<le> int (length mf0)
     \<and> corr_keeps_length X0 \<and> int (length [9, 9 :: real]) = 2 \<and> (1::int) \<le> 2
     \<and> (0::real) \<le> 1
     \<and> summed_powers spread0 2 8 1
          = Some ([1, 0, 0, 0, 25, 0, 0, 0, 0, 0, 0, 0, 0, 0, 0, 0, 4], 2 * 8 + 1)
     \<and> (im (mf0 ! 0) * sqrt 1)\<^sup>2 = 4
     \<and> search_minifft X0 initial_statics mf0 8 1 1 2 [9, 9] [9, 9]
          = Some (statics_after X0 initial_statics 8, [25, 4], [2, 8])"
proof -
  have h: "(8::int) \<le> 8" "1 \<le> r_resp_halfwidth_LOWACC X0" "8 \<le> int (length mf0)"
      "corr_keeps_length X0" "int (length [9, 9 :: real]) = 2" "(1::int) \<le> 2" "(0::real) \<le> 1"
    by (simp_all add: corr_keeps_length_X0 mf0_def)
  from plain_power_array [OF h(1-5) h(5) h(6,7), of initial_statics]
  obtain hp hf where sm: "search_minifft X0 initial_statics mf0 8 1 1 2 [9, 9] [9, 9]
        = Some (statics_after X0 initial_statics 8, hp, hf)"
    by blast
  have "search_minifft X0 initial_statics mf0 8 1 1 2 [9, 9] [9, 9]
     = Some (\<lparr>firsttime = 0, old_numminifft = 8, kernel = replicate 18 czero\<rparr>, [25, 4], [2, 8])"
    by (rule search_minifft_eval) simp
  with sm have "hp = [25, 4]" "hf = [2, 8]" by simp_all
  with sm have r: "search_minifft X0 initial_statics mf0 8 1 1 2 [9, 9] [9, 9]
          = Some (statics_after X0 initial_statics 8, [25, 4], [2, 8])"
    by simp
  have s: "summed_powers spread0 2 8 1
          = Some ([1, 0, 0, 0, 25, 0, 0, 0, 0, 0, 0, 0, 0, 0, 0, 0, 4], 2 * 8 + 1)"
    using summed_powers_eval [of 1] by simp
  have n: "(im (mf0 ! 0) * sqrt 1)\<^sup>2 = 4" by (simp add: mf0_def)
  from h r s n show ?thesis by (intro conjI)
qed

lemma sum_harmonics_eval2: "sum_harmonics [1, 25, 4, 25] (1 * 4) 2 = Some [1, 50, 29, 25]"
  by (simp add: harm_eval cong: bind_weak_cong)

theorem aliased_powers_symmetric_witness:
  "(1::int) \<le> 1 \<and> 2 * 1 \<le> int (length [czero, \<lparr>re = 3, im = 4\<rparr>]) \<and> (1::int) < 2
     \<and> wrap_powers [czero, \<lparr>re = 3, im = 4\<rparr>] 2 (1 * 2) (1 * 4) = Some [1, 25, 4, 25]
     \<and> summed_powers [czero, \<lparr>re = 3, im = 4\<rparr>] 2 1 2 = Some ([1, 50, 29, 25], 1 * 4)"
proof -
  have h: "(1::int) \<le> 1" "2 * 1 \<le> int (length [czero, \<lparr>re = 3, im = 4\<rparr>])" "(1::int) < 2"
    by simp_all
  from aliased_powers_symmetric [OF h, of 2]
  obtain fullpows sumpows where
    w: "wrap_powers [czero, \<lparr>re = 3, im = 4\<rparr>] 2 (1 * 2) (1 * 4) = Some fullpows"
    and sh: "sum_harmonics fullpows (1 * 4) 2 = Some sumpows"
    and sp: "summed_powers [czero, \<lparr>re = 3, im = 4\<rparr>] 2 1 2 = Some (sumpows, 1 * 4)"
    by blast
  from w wrap_powers_eval have f: "fullpows = [1, 25, 4, 25]" by simp
  with sh sum_harmonics_eval2 have "sumpows = [1, 50, 29, 25]" by simp
  with sp have "summed_powers [czero, \<lparr>re = 3, im = 4\<rparr>] 2 1 2 = Some ([1, 50, 29, 25], 1 * 4)"
    by simp
  with h wrap_powers_eval show ?thesis by (intro conjI)
qed

lemma prep_kernel_idem:
  "prep_kernel X (prep_kernel X st numminifft ns khw) numminifft ns' khw'
     = prep_kernel X st numminifft ns khw"
  by (simp add: prep_kernel_def Let_def)

lemma statics_after_idem:
  "statics_after X (statics_after X st numminifft) numminifft = statics_after X st numminifft"
  by (simp add: statics_after_eq prep_kernel_idem)

lemma search_minifft_state:
  assumes "search_minifft X st minifft numminifft nrm harmsum numcands highpows highfreqs
             = Some (st', hp, hf)"
  shows "st' = statics_after X st numminifft"
  using assms
  by (auto simp: search_minifft_def statics_after_def Let_def split: prod.splits bind_splits)

lemma search_minifft_cached:
  "search_minifft X (statics_after X st numminifft) minifft numminifft nrm harmsum numcands
       highpows highfreqs
     = search_minifft X st minifft numminifft nrm harmsum numcands highpows highfreqs"
  by (simp add: search_minifft_def statics_after_eq prep_kernel_idem split_beta Let_def)

lemma search_summed_powers_buffers:
  assumes "int (length a) = numcands" "int (length b) = numcands"
    and "int (length a') = numcands" "int (length b') = numcands"
  shows "search_summed_powers sumpows numtosearch numcands a b
       = search_summed_powers sumpows numtosearch numcands a' b'"
proof -
  have "clear_loop numcands 0 a b = Some (replicate (length a) 0, replicate (length a) 0)"
    using assms by (intro clear_loop_replicate) simp_all
  moreover have "clear_loop numcands 0 a' b' = Some (replicate (length a') 0, replicate (length a') 0)"
    using assms by (intro clear_loop_replicate) simp_all
  moreover have "length a = length a'" using assms by simp
  ultimately show ?thesis by (simp add: search_summed_powers_def)
qed

lemma search_minifft_buffers:
  assumes "int (length a) = numcands" "int (length b) = numcands"
    and "int (length a') = numcands" "int (length b') = numcands"
  shows "search_minifft X st minifft numminifft nrm harmsum numcands a b
       = search_minifft X st minifft numminifft nrm harmsum numcands a' b'"
  unfolding search_minifft_def
  by (simp add: search_summed_powers_buffers [OF assms])

text \<open>
  C9.  If a call returns, a second call with the same spectrum, length, norm, harmonics
  and candidate count, started from the static variables that the first call left and
  given any two vectors of length \<open>numcands\<close>, returns the same two vectors; it does not
  rebuild the kernel (the static variables stay as they are).
\<close>

theorem search_twice_identical:
  assumes "search_minifft X st minifft numminifft nrm harmsum numcands highpows highfreqs
             = Some (st', hp, hf)"
    and "int (length highpows) = numcands" "int (length highfreqs) = numcands"
    and "int (length highpows2) = numcands" "int (length highfreqs2) = numcands"
  shows "search_minifft X st' minifft numminifft nrm harmsum numcands highpows2 highfreqs2
           = Some (st', hp, hf)
       \<and> statics_after X st' numminifft = st'"
proof -
  have st': "st' = statics_after X st numminifft"
    by (rule search_minifft_state [OF assms(1)])
  have "search_minifft X st' minifft numminifft nrm harmsum numcands highpows2 highfreqs2
      = search_minifft X st' minifft numminifft nrm harmsum numcands highpows highfreqs"
    by (rule search_minifft_buffers [OF assms(4,5,2,3)])
  also have "\<dots> = search_minifft X st minifft numminifft nrm harmsum numcands highpows highfreqs"
    unfolding st' by (rule search_minifft_cached)
  finally show ?thesis
    using assms(1) st' by (simp add: statics_after_idem)
qed

theorem search_twice_identical_witness:
  "search_minifft X0 initial_statics mf0 8 1 1 2 [9, 9] [9, 9]
      = Some (\<lparr>firsttime = 0, old_numminifft = 8, kernel = replicate 18 czero\<rparr>, [25, 4], [2, 8])
     \<and> int (length [9, 9 :: real]) = 2 \<and> int (length [25, 4 :: real]) = 2
     \<and> int (length [2, 8 :: real]) = 2
     \<and> search_minifft X0 \<lparr>firsttime = 0, old_numminifft = 8, kernel = replicate 18 czero\<rparr>
          mf0 8 1 1 2 [25, 4] [2, 8]
      = Some (\<lparr>firsttime = 0, old_numminifft = 8, kernel = replicate 18 czero\<rparr>, [25, 4], [2, 8])"
proof -
  have e: "search_minifft X0 initial_statics mf0 8 1 1 2 [9, 9] [9, 9]
      = Some (\<lparr>firsttime = 0, old_numminifft = 8, kernel = replicate 18 czero\<rparr>, [25, 4], [2, 8])"
    by (rule search_minifft_eval) simp
  have h: "int (length [9, 9 :: real]) = 2" "int (length [25, 4 :: real]) = 2"
     "int (length [2, 8 :: real]) = 2"
    by simp_all
  from search_twice_identical [OF e h(1) h(1) h(2) h(3)] e h
  show ?thesis by (intro conjI) simp_all
qed

lemma search_minifft_total2:
  assumes "8 \<le> numminifft" "1 \<le> r_resp_halfwidth_LOWACC X"
    and "numminifft \<le> int (length minifft)" "corr_keeps_length X"
    and "int (length highpows) = numcands" "int (length highfreqs) = numcands" "1 \<le> numcands"
  shows "\<exists>sumpows numtosearch hp hf.
      searched_powers X st minifft numminifft nrm harmsum = Some (sumpows, numtosearch)
    \<and> numtosearch \<le> int (length sumpows)
    \<and> search_summed_powers sumpows numtosearch numcands highpows highfreqs = Some (hp, hf)
    \<and> search_minifft X st minifft numminifft nrm harmsum numcands highpows highfreqs
        = Some (statics_after X st numminifft, hp, hf)"
proof -
  from search_minifft_total [OF assms, of st nrm harmsum]
  obtain nyquist spread sumpows numtosearch hp hf where
    a: "spread_normalize_interpolate X (kernel (statics_after X st numminifft))
          minifft numminifft nrm (fst (padfftlen (r_resp_halfwidth_LOWACC X) numminifft 2))
        = Some (nyquist, spread)"
    and sp: "summed_powers spread nyquist numminifft harmsum = Some (sumpows, numtosearch)"
    and l: "int (length sumpows) = numtosearch"
    and r: "search_summed_powers sumpows numtosearch numcands highpows highfreqs = Some (hp, hf)"
    and sm: "search_minifft X st minifft numminifft nrm harmsum numcands highpows highfreqs
        = Some (statics_after X st numminifft, hp, hf)"
    by blast
  have "searched_powers X st minifft numminifft nrm harmsum = Some (sumpows, numtosearch)"
    using a sp by (simp add: searched_powers_def split_beta Let_def statics_after_eq)
  with l r sm show ?thesis by auto
qed

lemma padfftlen_in_range_search:
  assumes "8 \<le> numminifft" "numminifft * 4 \<le> INT_MAX"
    and "1 \<le> lowaccbins" "lowaccbins \<le> INT_MAX"
  shows "padfftlen_in_range lowaccbins numminifft 2"
proof -
  define p where "p = min (numminifft div 8) lowaccbins"
  have n0: "0 \<le> numminifft" using assms(1) by simp
  have "8 * (numminifft div 8) \<le> numminifft" by simp
  moreover have "p \<le> numminifft div 8" by (simp add: p_def)
  ultimately have p8: "8 * p \<le> numminifft" by linarith
  have p1: "1 \<le> p" using assms(1,3) by (simp add: p_def)
  have m: "numminifft * 4 \<le> 2147483647" using assms(2) by (simp add: INT_MAX_def)
  have a: "int_ok lowaccbins" "int_ok numminifft" "int_ok 2"
    using assms(1,3,4) m by (simp_all add: int_ok_def INT_MIN_def INT_MAX_def)
  have b: "int_ok (numminifft + p)" "int_ok ((numminifft + p) * 2)"
    using assms(1) p1 p8 m by (simp_all add: int_ok_def INT_MIN_def INT_MAX_def)
  have c: "1050000 < (numminifft + p) * 2 \<longrightarrow> int_ok ((numminifft + p) * 2 + 1000)"
    using assms(1) p1 p8 m by (simp add: int_ok_def INT_MIN_def INT_MAX_def)
  show ?thesis
    unfolding padfftlen_in_range_unfold [OF n0] p_def [symmetric]
    using a b c by (intro conjI)
qed

lemma search_minifft_via:
  "search_minifft X st minifft numminifft nrm harmsum numcands highpows highfreqs
     = do { (sumpows, numtosearch) \<leftarrow> searched_powers X st minifft numminifft nrm harmsum;
            (hp, hf) \<leftarrow> search_summed_powers sumpows numtosearch numcands highpows highfreqs;
            Some (statics_after X st numminifft, hp, hf) }"
  by (simp add: search_minifft_def searched_powers_def statics_after_def case_prod_unfold Let_def)

lemma clear_loop_none:
  "numcands \<le> 0 \<Longrightarrow> clear_loop numcands 0 highpows highfreqs = Some (highpows, highfreqs)"
  by (simp add: clear_loop.simps)

lemma scan_loop_nocands:
  assumes "numcands < 1" "1 \<le> ii" "numtosearch \<le> int (length sumpows)"
  shows "scan_loop sumpows numtosearch numcands ii 0 highpows highfreqs
     = (if filter (\<lambda>i. 0 < sumpows ! nat i) [ii..numtosearch - 1] = []
        then Some (highpows, highfreqs) else None)"
  using assms(2)
proof (induction "nat (numtosearch - ii)" arbitrary: ii)
  case 0
  then have "\<not> ii < numtosearch" by simp
  then show ?case by (simp add: scan_loop.simps)
next
  case (Suc k)
  then have lt: "ii < numtosearch" by simp
  have r: "rd sumpows ii = Some (sumpows ! nat ii)"
    using lt Suc.prems assms(3) by (simp add: rd_def)
  have u: "[ii..numtosearch - 1] = ii # [ii + 1..numtosearch - 1]"
    using lt by (simp add: upto_rec1)
  show ?case
  proof (cases "0 < sumpows ! nat ii")
    case True
    have w: "wr highpows (numcands - 1) (sumpows ! nat ii) = None"
      using assms(1) by (simp add: wr_def)
    show ?thesis
      by (subst scan_loop.simps) (simp add: lt r True w u)
  next
    case False
    have k: "k = nat (numtosearch - (ii + 1))" using Suc.hyps(2) by simp
    have ih: "scan_loop sumpows numtosearch numcands (ii + 1) 0 highpows highfreqs
       = (if filter (\<lambda>i. 0 < sumpows ! nat i) [ii + 1..numtosearch - 1] = []
          then Some (highpows, highfreqs) else None)"
      using Suc.prems by (intro Suc.hyps(1) [OF k]) simp
    show ?thesis
      by (subst scan_loop.simps) (simp add: lt r False ih u)
  qed
qed

lemma search_summed_powers_nocands:
  assumes "numcands < 1" "numtosearch \<le> int (length sumpows)"
  shows "search_summed_powers sumpows numtosearch numcands highpows highfreqs
     = (if positive_bins sumpows numtosearch = 0 then Some (highpows, highfreqs) else None)"
proof -
  have c: "clear_loop numcands 0 highpows highfreqs = Some (highpows, highfreqs)"
    using assms(1) by (intro clear_loop_none) simp
  have one: "(1::int) \<le> 1" by simp
  show ?thesis
    unfolding search_summed_powers_def c positive_bins_def
    by (simp add: scan_loop_nocands [OF assms(1) one assms(2)])
qed

lemma searched_powers_total:
  assumes "8 \<le> numminifft" "1 \<le> r_resp_halfwidth_LOWACC X"
    and "numminifft \<le> int (length minifft)" "corr_keeps_length X"
  shows "\<exists>sumpows numtosearch.
      searched_powers X st minifft numminifft nrm harmsum = Some (sumpows, numtosearch)
    \<and> numtosearch \<le> int (length sumpows)"
proof -
  have v: "int (length [0::real]) = 1" "(1::int) \<le> 1" by simp_all
  from search_minifft_total2 [OF assms v(1) v(1) v(2), of st nrm harmsum]
  show ?thesis by blast
qed

lemma spread_eval_norm0:
  "spread_normalize_interpolate X0 kern mf0 8 0 18
     = Some (0, [\<lparr>re = 1, im = 0\<rparr>, czero, czero, czero, czero, czero, czero, czero,
                 czero, czero, czero, czero, czero, czero, czero, czero, czero, czero])"
  by (simp add: spread_normalize_interpolate_def spread_no_pad_def gen_cvect_def mf0_def
      upto.simps normalize_loop.simps rd_def wr_def Let_def czero_def eval_nat_numeral
      cong: bind_weak_cong)

lemma summed_powers_eval_norm0:
  "harmsum \<le> 1 \<Longrightarrow> summed_powers [\<lparr>re = 1, im = 0\<rparr>, czero, czero, czero, czero, czero, czero, czero,
                 czero, czero, czero, czero, czero, czero, czero, czero, czero, czero] 0 8 harmsum
     = Some ([1, 0, 0, 0, 0, 0, 0, 0, 0, 0, 0, 0, 0, 0, 0, 0, 0], 17)"
  by (simp add: summed_powers_def plain_powers_def gen_fvect_def
      power_loop.simps rd_def wr_def Let_def czero_def POWER_def eval_nat_numeral
      cong: bind_weak_cong)

lemma searched_powers_eval_norm0:
  assumes "harmsum \<le> 1"
  shows "searched_powers X0 initial_statics mf0 8 0 harmsum
     = Some ([1, 0, 0, 0, 0, 0, 0, 0, 0, 0, 0, 0, 0, 0, 0, 0, 0], 17)"
  unfolding searched_powers_def X0_sel padfftlen_eval
  by (simp add: spread_eval_norm0 summed_powers_eval_norm0 [OF assms])

lemma searched_powers_eval_norm1:
  assumes "harmsum \<le> 1"
  shows "searched_powers X0 initial_statics mf0 8 1 harmsum
     = Some ([1, 0, 0, 0, 25, 0, 0, 0, 0, 0, 0, 0, 0, 0, 0, 0, 4], 17)"
  unfolding searched_powers_def X0_sel padfftlen_eval
  by (simp add: spread_eval summed_powers_eval [OF assms, unfolded spread0_def])

lemma positive_bins_eval_norm0:
  "positive_bins [1, 0, 0, 0, 0, 0, 0, 0, 0, 0, 0, 0, 0, 0, 0, 0, 0] 17 = 0"
  by (simp add: positive_bins_def upto.simps)

lemma positive_bins_eval_norm1:
  "positive_bins [1, 0, 0, 0, 25, 0, 0, 0, 0, 0, 0, 0, 0, 0, 0, 0, 4] 17 = 2"
  by (simp add: positive_bins_def upto.simps)

text \<open>
  C3 (as amended).  Calls that break the preconditions of the spec are processed
  like any other call.  Take a call with \<open>numminifft \<ge> 8\<close>, a half-width of at least 1,
  at least \<open>numminifft\<close> input samples and \<open>norm \<ge> 0\<close> (zero included), whose \<^verbatim>\<open>int\<close>
  arguments are 32-bit values with \<open>numminifft * 4 \<le> INT_MAX\<close>, \<open>harmsum < INT_MAX\<close>
  (line 94 increments its counter once past \<open>harmsum\<close>) and \<open>INT_MIN < numcands\<close>
  (line 119 forms \<open>numcands - 1\<close>).  Then, whether or not \<open>numminifft\<close> is a power of
  two, for \<open>norm = 0\<close> as for \<open>norm > 0\<close>, and for every such \<open>harmsum\<close> and \<open>numcands\<close>:
  \<^item> every \<^verbatim>\<open>int\<close> that \<^verbatim>\<open>padfftlen\<close> forms fits 32 bits;
  \<^item> lines 40 to 109 run to completion: the buffers are allocated and the array of
    summed powers is computed;
  \<^item> with two vectors of length \<open>numcands \<ge> 1\<close> the call runs to completion and returns
    both vectors;
  \<^item> with \<open>numcands < 1\<close> the call is not rejected either: if no scanned bin has a
    positive power it returns with the two vectors untouched, otherwise line 119
    writes slot \<open>numcands - 1 < 0\<close>, outside the vector (the value \<open>None\<close>);
  \<^item> a value \<open>harmsum \<le> 1\<close> is processed exactly as \<open>harmsum = 1\<close>.

  Two calls are outside the statement.  With a negative \<open>norm\<close>, \<^verbatim>\<open>sqrt\<close> yields a NaN,
  which the real numbers of the model do not have.  With \<open>harmsum = INT_MAX\<close> the
  counter of line 94 overflows, which the integers of the model do not show.
\<close>

theorem no_input_validation:
  assumes "8 \<le> numminifft" "numminifft * 4 \<le> INT_MAX"
    and "1 \<le> r_resp_halfwidth_LOWACC X" "r_resp_halfwidth_LOWACC X \<le> INT_MAX"
    and "numminifft \<le> int (length minifft)" "corr_keeps_length X"
    and "0 \<le> nrm"
    and "INT_MIN \<le> harmsum" "harmsum < INT_MAX"
    and "INT_MIN < numcands" "numcands \<le> INT_MAX"
  shows "padfftlen_in_range (r_resp_halfwidth_LOWACC X) numminifft 2
     \<and> (\<exists>sumpows numtosearch.
           searched_powers X st minifft numminifft nrm harmsum = Some (sumpows, numtosearch)
         \<and> (1 \<le> numcands \<and> int (length highpows) = numcands \<and> int (length highfreqs) = numcands
              \<longrightarrow> (\<exists>hp hf.
                     search_minifft X st minifft numminifft nrm harmsum numcands highpows highfreqs
                       = Some (statics_after X st numminifft, hp, hf)
                   \<and> int (length hp) = numcands \<and> int (length hf) = numcands))
         \<and> (numcands < 1
              \<longrightarrow> search_minifft X st minifft numminifft nrm harmsum numcands highpows highfreqs
                    = (if positive_bins sumpows numtosearch = 0
                       then Some (statics_after X st numminifft, highpows, highfreqs)
                       else None)))
     \<and> (harmsum \<le> 1 \<longrightarrow>
          search_minifft X st minifft numminifft nrm harmsum numcands highpows highfreqs
            = search_minifft X st minifft numminifft nrm 1 numcands highpows highfreqs)"
proof (intro conjI)
  show "padfftlen_in_range (r_resp_halfwidth_LOWACC X) numminifft 2"
    by (rule padfftlen_in_range_search [OF assms(1-4)])
next
  from searched_powers_total [OF assms(1,3,5,6), of st nrm harmsum]
  obtain sumpows numtosearch where
    sp: "searched_powers X st minifft numminifft nrm harmsum = Some (sumpows, numtosearch)"
    and nts: "numtosearch \<le> int (length sumpows)"
    by blast
  have A: "\<exists>hp hf.
       search_minifft X st minifft numminifft nrm harmsum numcands highpows highfreqs
         = Some (statics_after X st numminifft, hp, hf)
     \<and> int (length hp) = numcands \<and> int (length hf) = numcands"
    if c: "1 \<le> numcands" "int (length highpows) = numcands" "int (length highfreqs) = numcands"
  proof -
    define n where "n = length highpows"
    note v = vector_lengths [OF c(2,3,1), folded n_def]
    from search_summed_powers_ok [OF n_def [symmetric] v nts]
    obtain hp hf where r: "search_summed_powers sumpows numtosearch numcands highpows highfreqs = Some (hp, hf)"
      and l: "length hp = n" "length hf = n"
      by blast
    have "search_minifft X st minifft numminifft nrm harmsum numcands highpows highfreqs
         = Some (statics_after X st numminifft, hp, hf)"
      by (simp add: search_minifft_via sp r)
    with l v(2) show ?thesis by auto
  qed
  have C: "search_minifft X st minifft numminifft nrm harmsum numcands highpows highfreqs
         = (if positive_bins sumpows numtosearch = 0
            then Some (statics_after X st numminifft, highpows, highfreqs) else None)"
    if c: "numcands < 1"
    by (simp add: search_minifft_via sp search_summed_powers_nocands [OF c nts])
  from sp A C show "\<exists>sumpows numtosearch.
           searched_powers X st minifft numminifft nrm harmsum = Some (sumpows, numtosearch)
         \<and> (1 \<le> numcands \<and> int (length highpows) = numcands \<and> int (length highfreqs) = numcands
              \<longrightarrow> (\<exists>hp hf.
                     search_minifft X st minifft numminifft nrm harmsum numcands highpows highfreqs
                       = Some (statics_after X st numminifft, hp, hf)
                   \<and> int (length hp) = numcands \<and> int (length hf) = numcands))
         \<and> (numcands < 1
              \<longrightarrow> search_minifft X st minifft numminifft nrm harmsum numcands highpows highfreqs
                    = (if positive_bins sumpows numtosearch = 0
                       then Some (statics_after X st numminifft, highpows, highfreqs)
                       else None))"
    by blast
next
  show "harmsum \<le> 1 \<longrightarrow>
          search_minifft X st minifft numminifft nrm harmsum numcands highpows highfreqs
            = search_minifft X st minifft numminifft nrm 1 numcands highpows highfreqs"
  proof
    assume "harmsum \<le> 1"
    then have "summed_powers spread nyquist numminifft harmsum
             = summed_powers spread nyquist numminifft 1" for spread nyquist
      by (simp add: summed_powers_def)
    then show "search_minifft X st minifft numminifft nrm harmsum numcands highpows highfreqs
                = search_minifft X st minifft numminifft nrm 1 numcands highpows highfreqs"
      by (simp add: search_minifft_def)
  qed
qed

theorem no_input_validation_witness:
  "(8::int) \<le> 12 \<and> (12::int) * 4 \<le> INT_MAX
     \<and> 1 \<le> r_resp_halfwidth_LOWACC X0 \<and> r_resp_halfwidth_LOWACC X0 \<le> INT_MAX
     \<and> 12 \<le> int (length (replicate 12 czero)) \<and> 8 \<le> int (length mf0) \<and> corr_keeps_length X0
     \<and> (0::real) \<le> 0 \<and> INT_MIN \<le> - 3 \<and> - 3 < INT_MAX \<and> INT_MIN < 2 \<and> 2 \<le> INT_MAX
     \<and> INT_MIN < 0 \<and> 0 < INT_MAX
     \<and> int (length [9, 9 :: real]) = 2 \<and> (- 3 :: int) \<le> 1 \<and> (0 :: int) < 1
     \<and> padfftlen_in_range (r_resp_halfwidth_LOWACC X0) 12 2
     \<and> search_minifft X0 initial_statics (replicate 12 czero) 12 0 (- 3) 2 [9, 9] [9, 9] \<noteq> None
     \<and> search_minifft X0 initial_statics (replicate 12 czero) 12 0 (- 3) 2 [9, 9] [9, 9]
          = search_minifft X0 initial_statics (replicate 12 czero) 12 0 1 2 [9, 9] [9, 9]
     \<and> search_minifft X0 initial_statics mf0 8 0 0 0 [9, 9] [9, 9]
          = Some (\<lparr>firsttime = 0, old_numminifft = 8, kernel = replicate 18 czero\<rparr>, [9, 9], [9, 9])
     \<and> search_minifft X0 initial_statics mf0 8 1 0 0 [9, 9] [9, 9] = None"
proof -
  have h: "(8::int) \<le> 12" "(12::int) * 4 \<le> INT_MAX"
      "1 \<le> r_resp_halfwidth_LOWACC X0" "r_resp_halfwidth_LOWACC X0 \<le> INT_MAX"
      "12 \<le> int (length (replicate 12 czero))" "corr_keeps_length X0"
      "(0::real) \<le> 0" "INT_MIN \<le> - 3" "- 3 < INT_MAX" "INT_MIN < 2" "2 \<le> INT_MAX"
    by (simp_all add: corr_keeps_length_X0 INT_MAX_def INT_MIN_def)
  have g: "(8::int) \<le> 8" "(8::int) * 4 \<le> INT_MAX" "8 \<le> int (length mf0)"
      "(0::real) \<le> 1" "INT_MIN \<le> 0" "0 < INT_MAX" "INT_MIN < 0" "0 \<le> INT_MAX"
    by (simp_all add: mf0_def INT_MAX_def INT_MIN_def)
  have v: "int (length [9, 9 :: real]) = 2" "(1::int) \<le> 2" by simp_all
  have m: "(- 3 :: int) \<le> 1" "(0 :: int) < 1" "(0 :: int) \<le> 1" by simp_all
  note t = no_input_validation [OF h, of initial_statics "[9, 9]" "[9, 9]"]
  from t have r: "padfftlen_in_range (r_resp_halfwidth_LOWACC X0) 12 2" by blast
  from t v obtain hp hf where
    "search_minifft X0 initial_statics (replicate 12 czero) 12 0 (- 3) 2 [9, 9] [9, 9]
      = Some (statics_after X0 initial_statics 12, hp, hf)"
    by blast
  then have n: "search_minifft X0 initial_statics (replicate 12 czero) 12 0 (- 3) 2 [9, 9] [9, 9] \<noteq> None"
    by simp
  from t m(1) have e: "search_minifft X0 initial_statics (replicate 12 czero) 12 0 (- 3) 2 [9, 9] [9, 9]
          = search_minifft X0 initial_statics (replicate 12 czero) 12 0 1 2 [9, 9] [9, 9]"
    by blast
  from no_input_validation [OF g(1,2) h(3,4) g(3) h(6,7) g(5,6,7,8), of initial_statics "[9, 9]" "[9, 9]"] m(2)
  obtain sumpows numtosearch where
    sp: "searched_powers X0 initial_statics mf0 8 0 0 = Some (sumpows, numtosearch)"
    and c: "search_minifft X0 initial_statics mf0 8 0 0 0 [9, 9] [9, 9]
        = (if positive_bins sumpows numtosearch = 0
           then Some (statics_after X0 initial_statics 8, [9, 9], [9, 9]) else None)"
    by blast
  from sp have "sumpows = [1, 0, 0, 0, 0, 0, 0, 0, 0, 0, 0, 0, 0, 0, 0, 0, 0]" "numtosearch = 17"
    by (simp_all add: searched_powers_eval_norm0 [OF m(3)])
  with c have z0: "search_minifft X0 initial_statics mf0 8 0 0 0 [9, 9] [9, 9]
          = Some (\<lparr>firsttime = 0, old_numminifft = 8, kernel = replicate 18 czero\<rparr>, [9, 9], [9, 9])"
    by (simp add: positive_bins_eval_norm0 statics_after_eval)
  from no_input_validation [OF g(1,2) h(3,4) g(3) h(6) g(4,5,6,7,8), of initial_statics "[9, 9]" "[9, 9]"] m(2)
  obtain sumpows1 numtosearch1 where
    sp1: "searched_powers X0 initial_statics mf0 8 1 0 = Some (sumpows1, numtosearch1)"
    and c1: "search_minifft X0 initial_statics mf0 8 1 0 0 [9, 9] [9, 9]
        = (if positive_bins sumpows1 numtosearch1 = 0
           then Some (statics_after X0 initial_statics 8, [9, 9], [9, 9]) else None)"
    by blast
  from sp1 have "sumpows1 = [1, 0, 0, 0, 25, 0, 0, 0, 0, 0, 0, 0, 0, 0, 0, 0, 4]" "numtosearch1 = 17"
    by (simp_all add: searched_powers_eval_norm1 [OF m(3)])
  with c1 have z1: "search_minifft X0 initial_statics mf0 8 1 0 0 [9, 9] [9, 9] = None"
    by (simp add: positive_bins_eval_norm1)
  from h g v m r n e z0 z1 show ?thesis by (intro conjI)
qed

text \<open>
  C3 as stated fails: the call with \<open>harmsum = 0\<close> is not rejected; it returns the two
  candidates that \<open>harmsum = 1\<close> gives.
\<close>

theorem no_input_validation_counterexample:
  "(0::int) < 1
     \<and> search_minifft X0 initial_statics mf0 8 1 0 2 [9, 9] [9, 9]
        = Some (\<lparr>firsttime = 0, old_numminifft = 8, kernel = replicate 18 czero\<rparr>, [25, 4], [2, 8])"
proof -
  have "search_minifft X0 initial_statics mf0 8 1 0 2 [9, 9] [9, 9]
        = Some (\<lparr>firsttime = 0, old_numminifft = 8, kernel = replicate 18 czero\<rparr>, [25, 4], [2, 8])"
    by (rule search_minifft_eval) simp
  then show ?thesis by simp
qed

section \<open>The candidate list: results\<close>

text \<open>
  C5.  Let both returned vectors have length \<open>numcands \<ge> 1\<close>.  (1) After the
  initialisation loop both vectors are all zero, hence sorted.  (2) Every insertion
  (overwrite the last slot with a power and its frequency, then percolate) turns a list
  sorted non-increasing by power into one that is sorted again; the pairs (power,
  frequency at the same index) after it are the pairs before it with the last one
  replaced by the new pair; and the value that \<^verbatim>\<open>percolate_pows_and_freqs\<close> returns is
  the new last-slot power.  (3) The search of any array of summed powers returns powers
  sorted non-increasing, each slot holding (0, 0) or the power of a scanned bin
  together with half its index.  (4) So does every call of \<^verbatim>\<open>search_minifft\<close> whose
  arguments allow every buffer access, for the array that it searches.
\<close>

theorem candidates_sorted_and_paired:
  fixes highpows highfreqs :: "real list"
  assumes "int (length highpows) = numcands" "int (length highfreqs) = numcands"
    and "1 \<le> numcands"
  shows "(\<exists>hp hf. clear_loop numcands 0 highpows highfreqs = Some (hp, hf)
            \<and> hp = replicate (nat numcands) 0 \<and> hf = replicate (nat numcands) 0
            \<and> sorted_wrt (\<ge>) hp)
       \<and> (\<forall>hp hf s f. int (length hp) = numcands \<and> int (length hf) = numcands
                \<and> sorted_wrt (\<ge>) hp \<longrightarrow>
            (\<exists>hp1 hf1 hp' hf'.
                wr hp (numcands - 1) s = Some hp1 \<and> wr hf (numcands - 1) f = Some hf1
              \<and> percolate_pows_and_freqs hp1 hf1 numcands = Some (last hp', hp', hf')
              \<and> int (length hp') = numcands \<and> int (length hf') = numcands
              \<and> sorted_wrt (\<ge>) hp'
              \<and> mset (zip hp' hf')
                  = add_mset (s, f) (mset (zip hp hf) - {#(last hp, last hf)#})))
       \<and> (\<forall>sumpows numtosearch. numtosearch \<le> int (length sumpows) \<longrightarrow>
            (\<exists>hp hf. search_summed_powers sumpows numtosearch numcands highpows highfreqs
                        = Some (hp, hf)
               \<and> int (length hp) = numcands \<and> int (length hf) = numcands
               \<and> sorted_wrt (\<ge>) hp \<and> slots_from_scan sumpows numtosearch hp hf))
       \<and> (8 \<le> numminifft \<and> 1 \<le> r_resp_halfwidth_LOWACC X
            \<and> numminifft \<le> int (length minifft) \<and> corr_keeps_length X \<longrightarrow>
            (\<exists>sumpows numtosearch hp hf.
                searched_powers X st minifft numminifft nrm harmsum = Some (sumpows, numtosearch)
              \<and> search_minifft X st minifft numminifft nrm harmsum numcands highpows highfreqs
                  = Some (statics_after X st numminifft, hp, hf)
              \<and> int (length hp) = numcands \<and> int (length hf) = numcands
              \<and> sorted_wrt (\<ge>) hp \<and> slots_from_scan sumpows numtosearch hp hf))"
proof -
  have e: "(0::int) \<le> int (length ([]::real list))" by simp
  note t0 = tracker_sorted_and_paired [OF assms e]
  have block: "\<exists>hp hf. search_summed_powers sumpows numtosearch numcands highpows highfreqs
                        = Some (hp, hf)
               \<and> int (length hp) = numcands \<and> int (length hf) = numcands
               \<and> sorted_wrt (\<ge>) hp \<and> slots_from_scan sumpows numtosearch hp hf"
    if "numtosearch \<le> int (length sumpows)" for sumpows numtosearch
    using tracker_sorted_and_paired [OF assms that]
    unfolding slots_from_scan_def by blast
  have top: "\<exists>sumpows numtosearch hp hf.
                searched_powers X st minifft numminifft nrm harmsum = Some (sumpows, numtosearch)
              \<and> search_minifft X st minifft numminifft nrm harmsum numcands highpows highfreqs
                  = Some (statics_after X st numminifft, hp, hf)
              \<and> int (length hp) = numcands \<and> int (length hf) = numcands
              \<and> sorted_wrt (\<ge>) hp \<and> slots_from_scan sumpows numtosearch hp hf"
    if p: "8 \<le> numminifft \<and> 1 \<le> r_resp_halfwidth_LOWACC X
            \<and> numminifft \<le> int (length minifft) \<and> corr_keeps_length X"
  proof -
    from p have p': "8 \<le> numminifft" "1 \<le> r_resp_halfwidth_LOWACC X"
       "numminifft \<le> int (length minifft)" "corr_keeps_length X"
      by simp_all
    from search_minifft_total2 [OF p' assms, of st nrm harmsum]
    obtain sumpows numtosearch hp hf where
      a: "searched_powers X st minifft numminifft nrm harmsum = Some (sumpows, numtosearch)"
      and l: "numtosearch \<le> int (length sumpows)"
      and r: "search_summed_powers sumpows numtosearch numcands highpows highfreqs = Some (hp, hf)"
      and sm: "search_minifft X st minifft numminifft nrm harmsum numcands highpows highfreqs
        = Some (statics_after X st numminifft, hp, hf)"
      by blast
    from block [OF l] r
    have "int (length hp) = numcands \<and> int (length hf) = numcands
               \<and> sorted_wrt (\<ge>) hp \<and> slots_from_scan sumpows numtosearch hp hf"
      by auto
    with a sm show ?thesis by blast
  qed
  from t0 block top show ?thesis by blast
qed


lemma X0_facts:
  "(8::int) \<le> 8" "1 \<le> r_resp_halfwidth_LOWACC X0" "8 \<le> int (length mf0)" "corr_keeps_length X0"
  by (simp_all add: corr_keeps_length_def mf0_def)

lemma vec2_facts: "int (length [9, 9 :: real]) = 2" "(1::int) \<le> 2"
  by simp_all

theorem candidates_sorted_and_paired_witness:
  "int (length [9, 9 :: real]) = 2 \<and> (1::int) \<le> 2
     \<and> (8::int) \<le> 8 \<and> 1 \<le> r_resp_halfwidth_LOWACC X0 \<and> 8 \<le> int (length mf0)
     \<and> corr_keeps_length X0
     \<and> search_minifft X0 initial_statics mf0 8 1 1 2 [9, 9] [9, 9]
          = Some (statics_after X0 initial_statics 8, [25, 4], [2, 8])
     \<and> sorted_wrt (\<ge>) [25, 4 :: real]"
proof -
  note t = candidates_sorted_and_paired [OF vec2_facts(1) vec2_facts(1) vec2_facts(2),
      of 8 X0 mf0 initial_statics 1 1]
  from t X0_facts
  obtain hp hf where
    sm: "search_minifft X0 initial_statics mf0 8 1 1 2 [9, 9] [9, 9]
          = Some (statics_after X0 initial_statics 8, hp, hf)"
    and so: "sorted_wrt (\<ge>) hp"
    by blast
  have "search_minifft X0 initial_statics mf0 8 1 1 2 [9, 9] [9, 9]
     = Some (\<lparr>firsttime = 0, old_numminifft = 8, kernel = replicate 18 czero\<rparr>, [25, 4], [2, 8])"
    by (rule search_minifft_eval) simp
  with sm have e: "hp = [25, 4]" "hf = [2, 8]" by simp_all
  from sm e have r: "search_minifft X0 initial_statics mf0 8 1 1 2 [9, 9] [9, 9]
          = Some (statics_after X0 initial_statics 8, [25, 4], [2, 8])"
    by simp
  from so e have s: "sorted_wrt (\<ge>) [25, 4 :: real]" by simp
  from vec2_facts X0_facts r s show ?thesis by (intro conjI)
qed

text \<open>
  C7.  If fewer than \<open>numcands\<close> scanned bins (indices 1 up to \<open>numtosearch - 1\<close>)
  have a power strictly greater than zero, every slot from that number on holds exactly
  (0, 0) at return; bin 0 is never scanned, so the result is the same whatever its
  value.  This holds for the search of any array of summed powers, and for every call of
  \<^verbatim>\<open>search_minifft\<close> whose arguments allow every buffer access.
\<close>

theorem unfilled_slots_stay_zero:
  fixes highpows highfreqs :: "real list"
  assumes "int (length highpows) = numcands" "int (length highfreqs) = numcands"
    and "1 \<le> numcands"
  shows "(\<forall>sumpows numtosearch. numtosearch \<le> int (length sumpows)
             \<and> int (positive_bins sumpows numtosearch) < numcands \<longrightarrow>
            (\<exists>hp hf. search_summed_powers sumpows numtosearch numcands highpows highfreqs
                        = Some (hp, hf)
               \<and> int (length hp) = numcands \<and> int (length hf) = numcands
               \<and> (\<forall>j. positive_bins sumpows numtosearch \<le> j \<and> j < length hp
                      \<longrightarrow> hp ! j = 0 \<and> hf ! j = 0)
               \<and> (\<forall>x. search_summed_powers (sumpows[0 := x]) numtosearch numcands
                          highpows highfreqs = Some (hp, hf))))
       \<and> (8 \<le> numminifft \<and> 1 \<le> r_resp_halfwidth_LOWACC X
            \<and> numminifft \<le> int (length minifft) \<and> corr_keeps_length X \<longrightarrow>
            (\<exists>sumpows numtosearch hp hf.
                searched_powers X st minifft numminifft nrm harmsum = Some (sumpows, numtosearch)
              \<and> search_minifft X st minifft numminifft nrm harmsum numcands highpows highfreqs
                  = Some (statics_after X st numminifft, hp, hf)
              \<and> (int (positive_bins sumpows numtosearch) < numcands \<longrightarrow>
                   (\<forall>j. positive_bins sumpows numtosearch \<le> j \<and> j < length hp
                      \<longrightarrow> hp ! j = 0 \<and> hf ! j = 0))))"
proof -
  have block: "\<exists>hp hf. search_summed_powers sumpows numtosearch numcands highpows highfreqs
                        = Some (hp, hf)
               \<and> int (length hp) = numcands \<and> int (length hf) = numcands
               \<and> (\<forall>j. positive_bins sumpows numtosearch \<le> j \<and> j < length hp
                      \<longrightarrow> hp ! j = 0 \<and> hf ! j = 0)
               \<and> (\<forall>x. search_summed_powers (sumpows[0 := x]) numtosearch numcands
                          highpows highfreqs = Some (hp, hf))"
    if "numtosearch \<le> int (length sumpows) \<and> int (positive_bins sumpows numtosearch) < numcands"
    for sumpows numtosearch
    using tracker_unfilled_slots [OF assms, of numtosearch sumpows] that by blast
  have top: "\<exists>sumpows numtosearch hp hf.
                searched_powers X st minifft numminifft nrm harmsum = Some (sumpows, numtosearch)
              \<and> search_minifft X st minifft numminifft nrm harmsum numcands highpows highfreqs
                  = Some (statics_after X st numminifft, hp, hf)
              \<and> (int (positive_bins sumpows numtosearch) < numcands \<longrightarrow>
                   (\<forall>j. positive_bins sumpows numtosearch \<le> j \<and> j < length hp
                      \<longrightarrow> hp ! j = 0 \<and> hf ! j = 0))"
    if p: "8 \<le> numminifft \<and> 1 \<le> r_resp_halfwidth_LOWACC X
            \<and> numminifft \<le> int (length minifft) \<and> corr_keeps_length X"
  proof -
    from p have p': "8 \<le> numminifft" "1 \<le> r_resp_halfwidth_LOWACC X"
       "numminifft \<le> int (length minifft)" "corr_keeps_length X"
      by simp_all
    from search_minifft_total2 [OF p' assms, of st nrm harmsum]
    obtain sumpows numtosearch hp hf where
      a: "searched_powers X st minifft numminifft nrm harmsum = Some (sumpows, numtosearch)"
      and l: "numtosearch \<le> int (length sumpows)"
      and r: "search_summed_powers sumpows numtosearch numcands highpows highfreqs = Some (hp, hf)"
      and sm: "search_minifft X st minifft numminifft nrm harmsum numcands highpows highfreqs
        = Some (statics_after X st numminifft, hp, hf)"
      by blast
    have "\<forall>j. positive_bins sumpows numtosearch \<le> j \<and> j < length hp \<longrightarrow> hp ! j = 0 \<and> hf ! j = 0"
      if "int (positive_bins sumpows numtosearch) < numcands"
      using block [of numtosearch sumpows] l that r by auto
    with a sm show ?thesis by blast
  qed
  from block top show ?thesis by blast
qed

theorem unfilled_slots_stay_zero_witness:
  "int (length [9, 9, 9 :: real]) = 3 \<and> (1::int) \<le> 3
     \<and> (5::int) \<le> int (length [1, 0, 25, 0, 4 :: real])
     \<and> int (positive_bins [1, 0, 25, 0, 4] 5) < 3
     \<and> search_summed_powers [1, 0, 25, 0, 4] 5 3 [9, 9, 9] [9, 9, 9] = Some ([25, 4, 0], [1, 2, 0])
     \<and> positive_bins [1, 0, 25, 0, 4] 5 = 2"
proof -
  have h: "int (length [9, 9, 9 :: real]) = 3" "(1::int) \<le> 3"
       "(5::int) \<le> int (length [1, 0, 25, 0, 4 :: real])"
    by simp_all
  have p3: "int (positive_bins [1, 0, 25, 0, 4] 5) < 3"
    by (simp add: positive_bins_eval)
  from unfilled_slots_stay_zero [OF h(1) h(1) h(2)] h(3) p3
  obtain hp hf where
    r: "search_summed_powers [1, 0, 25, 0, 4] 5 3 [9, 9, 9] [9, 9, 9] = Some (hp, hf)"
    and z: "\<forall>j. positive_bins [1, 0, 25, 0, 4] 5 \<le> j \<and> j < length hp \<longrightarrow> hp ! j = 0 \<and> hf ! j = 0"
    by blast
  from r search_eval_3 have e: "hp = [25, 4, 0] \<and> hf = [1, 2, 0]" by simp
  with r have "search_summed_powers [1, 0, 25, 0, 4] 5 3 [9, 9, 9] [9, 9, 9] = Some ([25, 4, 0], [1, 2, 0])"
    by simp
  with h p3 positive_bins_eval show ?thesis by (intro conjI)
qed

text \<open>
  C10.  Every entry of the returned power vector is nonnegative: a value is stored only
  when it exceeds the current minimum, which starts at zero and is always an entry of
  the vector.  This holds for the search of any array of summed powers, and for every
  call of \<^verbatim>\<open>search_minifft\<close> whose arguments allow every buffer access.
\<close>

theorem returned_powers_nonnegative:
  fixes highpows highfreqs :: "real list"
  assumes "int (length highpows) = numcands" "int (length highfreqs) = numcands"
    and "1 \<le> numcands"
  shows "(\<forall>sumpows numtosearch. numtosearch \<le> int (length sumpows) \<longrightarrow>
            (\<exists>hp hf. search_summed_powers sumpows numtosearch numcands highpows highfreqs
                        = Some (hp, hf)
               \<and> int (length hp) = numcands \<and> (\<forall>p \<in> set hp. 0 \<le> p)))
       \<and> (8 \<le> numminifft \<and> 1 \<le> r_resp_halfwidth_LOWACC X
            \<and> numminifft \<le> int (length minifft) \<and> corr_keeps_length X \<longrightarrow>
            (\<exists>hp hf.
                search_minifft X st minifft numminifft nrm harmsum numcands highpows highfreqs
                  = Some (statics_after X st numminifft, hp, hf)
              \<and> int (length hp) = numcands \<and> (\<forall>p \<in> set hp. 0 \<le> p)))"
proof -
  have block: "\<exists>hp hf. search_summed_powers sumpows numtosearch numcands highpows highfreqs
                        = Some (hp, hf)
               \<and> int (length hp) = numcands \<and> (\<forall>p \<in> set hp. 0 \<le> p)"
    if "numtosearch \<le> int (length sumpows)" for sumpows numtosearch
    using tracker_powers_nonnegative [OF assms that] .
  have top: "\<exists>hp hf.
                search_minifft X st minifft numminifft nrm harmsum numcands highpows highfreqs
                  = Some (statics_after X st numminifft, hp, hf)
              \<and> int (length hp) = numcands \<and> (\<forall>p \<in> set hp. 0 \<le> p)"
    if p: "8 \<le> numminifft \<and> 1 \<le> r_resp_halfwidth_LOWACC X
            \<and> numminifft \<le> int (length minifft) \<and> corr_keeps_length X"
  proof -
    from p have p': "8 \<le> numminifft" "1 \<le> r_resp_halfwidth_LOWACC X"
       "numminifft \<le> int (length minifft)" "corr_keeps_length X"
      by simp_all
    from search_minifft_total2 [OF p' assms, of st nrm harmsum]
    obtain sumpows numtosearch hp hf where
      l: "numtosearch \<le> int (length sumpows)"
      and r: "search_summed_powers sumpows numtosearch numcands highpows highfreqs = Some (hp, hf)"
      and sm: "search_minifft X st minifft numminifft nrm harmsum numcands highpows highfreqs
        = Some (statics_after X st numminifft, hp, hf)"
      by blast
    from block [OF l] r have "int (length hp) = numcands \<and> (\<forall>p \<in> set hp. 0 \<le> p)"
      by auto
    with sm show ?thesis by blast
  qed
  from block top show ?thesis by blast
qed

theorem returned_powers_nonnegative_witness:
  "int (length [9, 9 :: real]) = 2 \<and> (1::int) \<le> 2
     \<and> (4::int) \<le> int (length [1, - 3, 25, - 7 :: real])
     \<and> search_summed_powers [1, - 3, 25, - 7] 4 2 [9, 9] [9, 9] = Some ([25, 0], [1, 0])
     \<and> list_all (\<lambda>p. 0 \<le> p) [25, 0 :: real]"
proof -
  have h: "(4::int) \<le> int (length [1, - 3, 25, - 7 :: real])"
    by simp
  from returned_powers_nonnegative [OF vec2_facts(1) vec2_facts(1) vec2_facts(2)] h
  obtain hp hf where
    r: "search_summed_powers [1, - 3, 25, - 7] 4 2 [9, 9] [9, 9] = Some (hp, hf)"
    and z: "\<forall>p \<in> set hp. 0 \<le> p"
    by blast
  note e = search_eval_neg
  from r e have "hp = [25, 0]" by simp
  with z have "list_all (\<lambda>p. 0 \<le> p) [25, 0 :: real]" by (simp add: list_all_iff)
  with e h vec2_facts show ?thesis by (intro conjI)
qed

end
